theory Spec2Isabelle
  imports Main
begin

section \<open>Characters and character classes\<close>

text \<open>
  The analyzer (\<^verbatim>\<open>scripts/verify_metrics.py\<close>) works on Python \<^verbatim>\<open>str\<close> values. A text is
  modelled as a \<^typ>\<open>string\<close>, one \<^typ>\<open>char\<close> per code point, which covers the code points
  below 256. The classes below are the ones Python uses on that range: \<^verbatim>\<open>str.strip()\<close> and
  the regular expression class \<^verbatim>\<open>\s\<close> share one table of white space, and \<^verbatim>\<open>\w\<close> is
  \<^verbatim>\<open>str.isalnum()\<close> or the underscore.
\<close>

abbreviation nl :: char where "nl \<equiv> CHR 0x0A"
abbreviation squote :: char where "squote \<equiv> CHR 0x27"
abbreviation dquote :: char where "dquote \<equiv> CHR 0x22"
abbreviation bslash :: char where "bslash \<equiv> CHR 0x5C"
abbreviation slash :: char where "slash \<equiv> CHR ''/''"
abbreviation star :: char where "star \<equiv> CHR ''*''"
abbreviation space :: char where "space \<equiv> CHR '' ''"

definition is_space :: "char \<Rightarrow> bool" where
  "is_space c = (of_char c \<in> {9, 10, 11, 12, 13, 28, 29, 30, 31, 32, 133, 160 :: nat})"

definition is_word :: "char \<Rightarrow> bool" where
  "is_word c =
     (let n = (of_char c :: nat) in
        (48 \<le> n \<and> n \<le> 57) \<or> (65 \<le> n \<and> n \<le> 90) \<or> n = 95 \<or> (97 \<le> n \<and> n \<le> 122)
        \<or> n = 170 \<or> n = 178 \<or> n = 179 \<or> n = 181 \<or> n = 185 \<or> n = 186
        \<or> (188 \<le> n \<and> n \<le> 190) \<or> (192 \<le> n \<and> n \<le> 214)
        \<or> (216 \<le> n \<and> n \<le> 246) \<or> 248 \<le> n)"

section \<open>TextSanitizer: \<^verbatim>\<open>remove_comments\<close>\<close>

text \<open>
  The pattern of \<^verbatim>\<open>remove_comments\<close>, compiled with \<^verbatim>\<open>DOTALL | MULTILINE\<close>, has four
  alternatives, tried in this order at every position:
  \<^verbatim>\<open>//.*?$\<close>, \<^verbatim>\<open>/\*.*?\*/\<close>, \<^verbatim>\<open>'(?:\\.|[^\\'])*'\<close> and \<^verbatim>\<open>"(?:\\.|[^\\"])*"\<close>.

  \<open>lit_len dotall q s\<close> is the body of a literal alternative after its opening quote
  \<open>q\<close>: the number of characters of \<open>s\<close> that \<^verbatim>\<open>(?:\\.|[^\\q])*q\<close> consumes, or \<open>None\<close>
  when it cannot match. The two branches of the group start with different characters, so
  the greedy repetition has one way to proceed, and every position it could backtrack to
  holds a character that is not the quote. Without \<^verbatim>\<open>DOTALL\<close> the dot of \<^verbatim>\<open>\\.\<close> refuses
  a newline.
\<close>

fun lit_len :: "bool \<Rightarrow> char \<Rightarrow> string \<Rightarrow> nat option" where
  "lit_len dotall q [] = None"
| "lit_len dotall q (c # cs) =
     (if c = q then Some 1
      else if c = bslash then
        (case cs of
           [] \<Rightarrow> None
         | d # ds \<Rightarrow>
             if \<not> dotall \<and> d = nl then None
             else map_option (\<lambda>n. n + 2) (lit_len dotall q ds))
      else map_option Suc (lit_len dotall q cs))"

text \<open>
  \<open>line_comment_len s\<close>: what the lazy \<^verbatim>\<open>.*?$\<close> consumes after \<^verbatim>\<open>//\<close>. With
  \<^verbatim>\<open>MULTILINE\<close> the \<^verbatim>\<open>$\<close> holds before a newline and at the end of the text, and the
  lazy repetition stops at the first such place.
\<close>

fun line_comment_len :: "string \<Rightarrow> nat" where
  "line_comment_len [] = 0"
| "line_comment_len (c # cs) = (if c = nl then 0 else Suc (line_comment_len cs))"

text \<open>
  \<open>block_comment_len s\<close>: what the lazy \<^verbatim>\<open>.*?\*/\<close> consumes after \<^verbatim>\<open>/*\<close>, up to and
  including the first \<^verbatim>\<open>*/\<close>; \<open>None\<close> when there is none.
\<close>

fun block_comment_len :: "string \<Rightarrow> nat option" where
  "block_comment_len [] = None"
| "block_comment_len [c] = None"
| "block_comment_len (c # d # ds) =
     (if c = star \<and> d = slash then Some 2
      else map_option Suc (block_comment_len (d # ds)))"

text \<open>
  \<open>match_len s\<close>: the length of the match of the whole pattern at the start of \<open>s\<close>.
  A text that starts with a slash can only match a comment alternative, and one that starts
  with a quote only the literal alternative of that quote.
\<close>

fun match_len :: "string \<Rightarrow> nat option" where
  "match_len [] = None"
| "match_len (c # cs) =
     (if c = slash then
        (case cs of
           [] \<Rightarrow> None
         | d # ds \<Rightarrow>
             if d = slash then Some (2 + line_comment_len ds)
             else if d = star then map_option (\<lambda>n. n + 2) (block_comment_len ds)
             else None)
      else if c = squote \<or> c = dquote then map_option Suc (lit_len True c cs)
      else None)"

text \<open>The \<^verbatim>\<open>replacer\<close> callback: a match that starts with a slash becomes one space.\<close>

definition replacer :: "string \<Rightarrow> string" where
  "replacer s = (if s \<noteq> [] \<and> hd s = slash then [space] else s)"

text \<open>
  \<^verbatim>\<open>re.sub(pattern, replacer, text)\<close>: scan from the left; where the pattern matches, put
  the replacement and go on after the match; elsewhere copy one character. The pattern
  never matches the empty string.
\<close>

function remove_comments :: "string \<Rightarrow> string" where
  "remove_comments [] = []"
| "remove_comments (c # cs) =
     (case match_len (c # cs) of
        None \<Rightarrow> c # remove_comments cs
      | Some n \<Rightarrow> replacer (take n (c # cs)) @ remove_comments (drop n (c # cs)))"
  by pat_completeness auto

lemma match_len_pos: "match_len s = Some n \<Longrightarrow> 0 < n"
  by (cases s) (auto split: if_splits list.splits)

termination remove_comments
  by (relation "measure length") (auto simp del: match_len.simps dest!: match_len_pos)

section \<open>LineCounter: \<^verbatim>\<open>count_file_loc\<close>\<close>

text \<open>\<^verbatim>\<open>text.split('\n')\<close>: the pieces between newlines; always at least one piece.\<close>

fun split_nl :: "string \<Rightarrow> string list" where
  "split_nl [] = [[]]"
| "split_nl (c # cs) =
     (if c = nl then [] # split_nl cs
      else (case split_nl cs of
              [] \<Rightarrow> [[c]]
            | l # ls \<Rightarrow> (c # l) # ls))"

text \<open>\<^verbatim>\<open>str.strip()\<close>: white space removed at both ends.\<close>

definition strip :: "string \<Rightarrow> string" where
  "strip s = rev (dropWhile is_space (rev (dropWhile is_space s)))"

text \<open>The counting loop, shared by the file count and the per-function count.\<close>

fun count_loc :: "string list \<Rightarrow> nat" where
  "count_loc [] = 0"
| "count_loc (l # ls) = (if strip l \<noteq> [] then Suc (count_loc ls) else count_loc ls)"

definition count_file_loc :: "string \<Rightarrow> nat" where
  "count_file_loc t = count_loc (split_nl t)"

section \<open>ComplexityScorer: \<^verbatim>\<open>calculate_complexity\<close>\<close>

text \<open>
  The patterns of \<^verbatim>\<open>calculate_complexity\<close> are sequences of literal characters and word
  boundaries: \<^verbatim>\<open>\bif\b\<close> is \<open>[WB, Ch i, Ch f, WB]\<close>. \<^verbatim>\<open>\b\<close> holds between a word
  character and a character that is not one; the start and the end of the text count as
  not a word character.
\<close>

datatype atom = WB | Ch char

definition word_boundary :: "char option \<Rightarrow> string \<Rightarrow> bool" where
  "word_boundary prev s =
     ((case prev of None \<Rightarrow> False | Some p \<Rightarrow> is_word p)
      \<noteq> (case s of [] \<Rightarrow> False | c # _ \<Rightarrow> is_word c))"

text \<open>
  \<open>match_seq r prev s\<close>: the number of characters the pattern \<open>r\<close> consumes at the
  start of \<open>s\<close>, where \<open>prev\<close> is the character before \<open>s\<close> in the text.
\<close>

fun match_seq :: "atom list \<Rightarrow> char option \<Rightarrow> string \<Rightarrow> nat option" where
  "match_seq [] prev s = Some 0"
| "match_seq (WB # r) prev s = (if word_boundary prev s then match_seq r prev s else None)"
| "match_seq (Ch c # r) prev [] = None"
| "match_seq (Ch c # r) prev (d # s) =
     (if c = d then map_option Suc (match_seq r (Some d) s) else None)"

text \<open>
  \<^verbatim>\<open>len(re.findall(kw, text))\<close>: the matches found from the left, none overlapping
  another. After a match of \<open>n\<close> characters the scan goes on behind it; the patterns used
  here all consume at least one character.
\<close>

fun findall_count :: "atom list \<Rightarrow> char option \<Rightarrow> string \<Rightarrow> nat" where
  "findall_count r prev [] = 0"
| "findall_count r prev (c # cs) =
     (case match_seq r prev (c # cs) of
        None \<Rightarrow> findall_count r (Some c) cs
      | Some n \<Rightarrow>
          Suc (findall_count r (Some (last (take n (c # cs)))) (drop (n - 1) cs)))"

definition word_pat :: "string \<Rightarrow> atom list" where
  "word_pat w = [WB] @ map Ch w @ [WB]"

definition keyword_patterns :: "atom list list" where
  "keyword_patterns =
     [word_pat ''if'', word_pat ''else if'', word_pat ''for'', word_pat ''while'',
      word_pat ''do'', word_pat ''case'', word_pat ''catch'']"

definition operator_patterns :: "atom list list" where
  "operator_patterns = [map Ch ''&&'', map Ch ''||'', map Ch ''?'']"

definition calculate_complexity :: "string \<Rightarrow> nat" where
  "calculate_complexity t =
     (let score = foldl (\<lambda>score kw. score + findall_count kw None t) 1 keyword_patterns
      in foldl (\<lambda>score op. score + findall_count op None t) score operator_patterns)"

section \<open>FunctionExtractor and ViolationReporter: \<^verbatim>\<open>analyze_functions\<close>\<close>

definition MAX_FILE_LOC :: nat where "MAX_FILE_LOC = 500"
definition MAX_FUNC_LOC :: nat where "MAX_FUNC_LOC = 50"
definition MAX_COMPLEXITY :: nat where "MAX_COMPLEXITY = 10"

text \<open>Decimal rendering of a number in a formatted message.\<close>

fun str_nat :: "nat \<Rightarrow> string" where
  "str_nat n =
     (if n < 10 then [char_of (48 + n)]
      else str_nat (n div 10) @ [char_of (48 + n mod 10)])"

declare str_nat.simps [simp del]

text \<open>
  Literal masking, \<^verbatim>\<open>re.sub(r"'(?:\\.|[^\\\'])*'", "''", line)\<close> and the same for the
  double quote: every literal of quote \<open>q\<close> becomes the two quotes. These patterns are
  compiled without \<^verbatim>\<open>DOTALL\<close>.
\<close>

function mask :: "char \<Rightarrow> string \<Rightarrow> string" where
  "mask q [] = []"
| "mask q (c # cs) =
     (if c = q then
        (case lit_len False q cs of
           None \<Rightarrow> c # mask q cs
         | Some n \<Rightarrow> [q, q] @ mask q (drop n cs))
      else c # mask q cs)"
  by pat_completeness auto
termination
  by (relation "measure (\<lambda>(q, s). length s)") auto

definition line_no_strings :: "string \<Rightarrow> string" where
  "line_no_strings line = mask dquote (mask squote line)"

text \<open>
  The declaration pattern
  \<^verbatim>\<open>^\s*(([\w<>?]+)\s+)?(\w+)\s*\(.*?\)\s*(async\s*)?\{\<close>, applied with \<^verbatim>\<open>search\<close>: without
  \<^verbatim>\<open>MULTILINE\<close> the \<^verbatim>\<open>^\<close> holds at the start of the line only. Every greedy repetition
  of a class is followed by something that refuses the characters of the class, so it takes
  the whole run and giving characters back never helps.

  \<open>tail_ok\<close> is \<^verbatim>\<open>\s*(async\s*)?\{\<close>, \<open>args_tail\<close> is \<^verbatim>\<open>.*?\)\s*(async\s*)?\{\<close> (the dot
  refuses a newline), \<open>name_args\<close> is \<^verbatim>\<open>(\w+)\s*\(.*?\)\s*(async\s*)?\{\<close> and gives group 3.
  \<open>func_def_pattern\<close> tries the optional first group, then the pattern without it, and
  gives group 3 of the match.
\<close>

definition is_tok :: "char \<Rightarrow> bool" where
  "is_tok c = (is_word c \<or> c = CHR ''<'' \<or> c = CHR ''>'' \<or> c = CHR ''?'')"

definition starts_with :: "string \<Rightarrow> string \<Rightarrow> bool" where
  "starts_with p s = (take (length p) s = p)"

definition tail_ok :: "string \<Rightarrow> bool" where
  "tail_ok b =
     (let b1 = dropWhile is_space b in
        if starts_with ''async'' b1
        then starts_with ''{'' (dropWhile is_space (drop 5 b1))
        else starts_with ''{'' b1)"

fun args_tail :: "string \<Rightarrow> bool" where
  "args_tail [] = False"
| "args_tail (c # cs) =
     (if c = CHR '')'' \<and> tail_ok cs then True
      else if c = nl then False
      else args_tail cs)"

definition name_args :: "string \<Rightarrow> string option" where
  "name_args s =
     (let name = takeWhile is_word s;
          r = dropWhile is_space (dropWhile is_word s)
      in if name \<noteq> [] \<and> starts_with ''('' r \<and> args_tail (tl r) then Some name else None)"

definition func_def_pattern :: "string \<Rightarrow> string option" where
  "func_def_pattern line =
     (let s1 = dropWhile is_space line;
          t1 = takeWhile is_tok s1;
          r1 = dropWhile is_tok s1;
          with_type =
            (if t1 \<noteq> [] \<and> r1 \<noteq> [] \<and> is_space (hd r1)
             then name_args (dropWhile is_space r1) else None)
      in case with_type of Some name \<Rightarrow> Some name | None \<Rightarrow> name_args s1)"

definition control_keywords :: "string list" where
  "control_keywords = [''if'', ''for'', ''while'', ''switch'', ''catch'', ''do'']"

text \<open>The variables of the loop of \<^verbatim>\<open>analyze_functions\<close>.\<close>

record state =
  brace_balance :: int
  in_function :: bool
  func_start_line :: nat
  func_content :: "string list"
  func_name :: string
  violations :: "string list"

definition init_state :: state where
  "init_state =
     \<lparr>brace_balance = 0, in_function = False, func_start_line = 0,
      func_content = [], func_name = ''unknown'', violations = []\<rparr>"

text \<open>\<^verbatim>\<open>"\n".join(func_content)\<close>.\<close>

fun join_nl :: "string list \<Rightarrow> string" where
  "join_nl [] = []"
| "join_nl [l] = l"
| "join_nl (l # m # ls) = l @ [nl] @ join_nl (m # ls)"

definition loc_message :: "string \<Rightarrow> nat \<Rightarrow> nat \<Rightarrow> string" where
  "loc_message name start loc =
     ''  - Function '' @ [squote] @ name @ [squote] @ '' (line '' @ str_nat (start + 1)
       @ ''): LOC '' @ str_nat loc @ '' > '' @ str_nat MAX_FUNC_LOC"

definition complexity_message :: "string \<Rightarrow> nat \<Rightarrow> nat \<Rightarrow> string" where
  "complexity_message name start complexity =
     ''  - Function '' @ [squote] @ name @ [squote] @ '' (line '' @ str_nat (start + 1)
       @ ''): Complexity '' @ str_nat complexity @ '' > '' @ str_nat MAX_COMPLEXITY"

text \<open>
  What the loop does when a function has ended (source lines 115 to 129): the two
  measurements and the two threshold checks, the LOC check first.
\<close>

definition function_violations :: "string \<Rightarrow> nat \<Rightarrow> string list \<Rightarrow> string list" where
  "function_violations name start content =
     (let func_text = join_nl content;
          loc = count_loc content;
          complexity = calculate_complexity func_text
      in (if loc > MAX_FUNC_LOC then [loc_message name start loc] else [])
         @ (if complexity > MAX_COMPLEXITY then [complexity_message name start complexity]
            else []))"

text \<open>One iteration of the loop over \<^verbatim>\<open>enumerate(lines)\<close>.\<close>

definition analyze_line :: "state \<Rightarrow> nat \<times> string \<Rightarrow> state" where
  "analyze_line st il =
     (let i = fst il; line = snd il;
          lns = line_no_strings line;
          open_braces = int (count_list lns (CHR ''{''));
          close_braces = int (count_list lns (CHR ''}''));
          st1 =
            (if \<not> in_function st \<and> open_braces > close_braces then
               (case func_def_pattern lns of
                  None \<Rightarrow> st
                | Some name \<Rightarrow>
                    if name \<notin> set control_keywords then
                      st\<lparr>in_function := True, brace_balance := 0, func_start_line := i,
                         func_name := name, func_content := []\<rparr>
                    else st)
             else st)
      in if in_function st1 then
           (let st2 = st1\<lparr>func_content := func_content st1 @ [line],
                          brace_balance := brace_balance st1 + open_braces - close_braces\<rparr>
            in if brace_balance st2 = 0 then
                 st2\<lparr>in_function := False,
                     violations := violations st2
                       @ function_violations (func_name st2) (func_start_line st2)
                           (func_content st2)\<rparr>
               else st2)
         else st1)"

definition run_lines :: "string list \<Rightarrow> state" where
  "run_lines ls = foldl analyze_line init_state (enumerate 0 ls)"

definition analyze_functions :: "string \<Rightarrow> string list" where
  "analyze_functions t = violations (run_lines (split_nl t))"

section \<open>Driver: the analysis of one file in \<^verbatim>\<open>main\<close>\<close>

definition file_loc_message :: "nat \<Rightarrow> string" where
  "file_loc_message file_loc =
     ''  - File LOC '' @ str_nat file_loc @ '' > '' @ str_nat MAX_FILE_LOC"

text \<open>
  The body of the \<^verbatim>\<open>try\<close> block for one file, from the content read to the list
  \<^verbatim>\<open>file_violations\<close> (source lines 150 to 159).
\<close>

definition file_violations :: "string \<Rightarrow> string list" where
  "file_violations content =
     (let content_no_comments = remove_comments content;
          file_loc = count_file_loc content_no_comments
      in (if file_loc > MAX_FILE_LOC then [file_loc_message file_loc] else [])
         @ analyze_functions content_no_comments)"

text \<open>
  \<open>comment_newlines t\<close>: the number of newlines inside the comments that
  \<^verbatim>\<open>remove_comments\<close> replaces in \<open>t\<close>, found by the same scan.
\<close>

function comment_newlines :: "string \<Rightarrow> nat" where
  "comment_newlines [] = 0"
| "comment_newlines (c # cs) =
     (case match_len (c # cs) of
        None \<Rightarrow> comment_newlines cs
      | Some n \<Rightarrow>
          (if c = slash then count_list (take n (c # cs)) nl else 0)
          + comment_newlines (drop n (c # cs)))"
  by pat_completeness auto
termination
  by (relation "measure length") (auto simp del: match_len.simps dest!: match_len_pos)

text \<open>
  Two views of the literal scan, used in the proofs. \<open>lit_scan d q e s\<close> is \<open>lit_len\<close>
  read one character at a time: the flag \<open>e\<close> says that the character before \<open>s\<close> was a
  backslash that opens an escape pair. \<open>lit_after d q e a\<close> is the flag after the scan has
  read all of \<open>a\<close> without meeting the closing quote, and \<open>None\<close> when it stops inside
  \<open>a\<close>.
\<close>

fun lit_scan :: "bool \<Rightarrow> char \<Rightarrow> bool \<Rightarrow> string \<Rightarrow> nat option" where
  "lit_scan d q e [] = None"
| "lit_scan d q True (c # cs) =
     (if \<not> d \<and> c = nl then None else map_option Suc (lit_scan d q False cs))"
| "lit_scan d q False (c # cs) =
     (if c = q then Some 1 else map_option Suc (lit_scan d q (c = bslash) cs))"

fun lit_after :: "bool \<Rightarrow> char \<Rightarrow> bool \<Rightarrow> string \<Rightarrow> bool option" where
  "lit_after d q e [] = Some e"
| "lit_after d q True (c # cs) = (if \<not> d \<and> c = nl then None else lit_after d q False cs)"
| "lit_after d q False (c # cs) = (if c = q then None else lit_after d q (c = bslash) cs)"

text \<open>
  \<open>word_at w p t\<close>: the pattern \<^verbatim>\<open>\bw\b\<close> matches at the start of \<open>t\<close>, where \<open>p\<close> is the
  character before \<open>t\<close>. Used in the proofs about the keyword counts.
\<close>

definition word_at :: "string \<Rightarrow> char option \<Rightarrow> string \<Rightarrow> bool" where
  "word_at w p t =
     (word_boundary p t \<and> take (length w) t = w \<and> length w \<le> length t
      \<and> word_boundary (Some (last w)) (drop (length w) t))"

text \<open>
  Names for the conditions of the loop body: \<open>net_open\<close> is the test
  \<^verbatim>\<open>open_braces > close_braces\<close>, \<open>starts_capture\<close> is the whole condition under which a
  line read outside a function starts one, and \<open>delta\<close> is what a line adds to
  \<^verbatim>\<open>brace_balance\<close>.
\<close>

definition net_open :: "string \<Rightarrow> bool" where
  "net_open line =
     (count_list (line_no_strings line) (CHR ''{'') > count_list (line_no_strings line) (CHR ''}''))"

definition starts_capture :: "string \<Rightarrow> bool" where
  "starts_capture line =
     (net_open line \<and>
      (case func_def_pattern (line_no_strings line) of
         None \<Rightarrow> False
       | Some name \<Rightarrow> name \<notin> set control_keywords))"

definition delta :: "string \<Rightarrow> int" where
  "delta line =
     int (count_list (line_no_strings line) (CHR ''{''))
     - int (count_list (line_no_strings line) (CHR ''}''))"

text \<open>
  \<open>plain s\<close>: \<open>s\<close> has no slash and no quote, so no alternative of the pattern of
  \<^verbatim>\<open>remove_comments\<close> can match at a position of \<open>s\<close>.
\<close>

definition plain :: "string \<Rightarrow> bool" where
  "plain s = (slash \<notin> set s \<and> squote \<notin> set s \<and> dquote \<notin> set s)"

text \<open>
  \<open>never_zero d ls\<close>: starting from the balance \<open>d\<close>, the balance after each line of
  \<open>ls\<close> is different from zero, so a function that is being captured does not end in
  \<open>ls\<close>.
\<close>

fun never_zero :: "int \<Rightarrow> string list \<Rightarrow> bool" where
  "never_zero d [] = True"
| "never_zero d (l # ls) = (d + delta l \<noteq> 0 \<and> never_zero (d + delta l) ls)"

text \<open>
  The functions that the loop extracts, each with its name, start line and content, in the
  order in which the loop finishes them. \<open>function_end_at ls k\<close> is the function that
  ends at line \<open>k\<close> of \<open>ls\<close>, if one does: the loop has reached line \<open>k\<close> inside a
  function and line \<open>k\<close> brings the balance to zero. \<open>region_violations\<close> is what the
  loop reports for such a function.
\<close>

definition function_end_at :: "string list \<Rightarrow> nat \<Rightarrow> (string \<times> nat \<times> string list) list" where
  "function_end_at ls k =
     (let st = run_lines (take k ls) in
        if in_function st \<and> brace_balance st + delta (ls ! k) = 0
        then [(func_name st, func_start_line st, func_content st @ [ls ! k])]
        else [])"

definition extracted_functions :: "string list \<Rightarrow> (string \<times> nat \<times> string list) list" where
  "extracted_functions ls = concat (map (function_end_at ls) [0..<length ls])"

definition region_violations :: "string \<times> nat \<times> string list \<Rightarrow> string list" where
  "region_violations r = function_violations (fst r) (fst (snd r)) (snd (snd r))"



section \<open>Properties\<close>

lemma split_nl_length: "length (split_nl t) = Suc (count_list t nl)"
  by (induction t) (auto split: list.splits)


subsection \<open>C1: line count of the sanitized text\<close>

lemma count_list_take_drop:
  "count_list (take n xs) x + count_list (drop n xs) x = count_list xs x"
  by (metis append_take_drop_id count_list_append)

lemma replacer_slash: "0 < n \<Longrightarrow> replacer (take n (slash # cs)) = [space]"
  by (cases n) (auto simp: replacer_def)

lemma replacer_other: "c \<noteq> slash \<Longrightarrow> replacer (take n (c # cs)) = take n (c # cs)"
  by (cases n) (auto simp: replacer_def)

lemma remove_comments_newlines:
  "count_list (remove_comments t) nl + comment_newlines t = count_list t nl"
proof (induction t rule: remove_comments.induct)
  case 1
  then show ?case by simp
next
  case (2 c cs)
  show ?case
  proof (cases "match_len (c # cs)")
    case None
    with 2 show ?thesis by (simp del: match_len.simps)
  next
    case (Some n)
    then have pos: "0 < n" by (rule match_len_pos)
    have IH: "count_list (remove_comments (drop n (c # cs))) nl + comment_newlines (drop n (c # cs))
              = count_list (drop n (c # cs)) nl"
      using 2(2)[OF Some] .
    show ?thesis
    proof (cases "c = slash")
      case True
      then show ?thesis
        using Some IH pos count_list_take_drop[of n "c # cs" nl]
        by (simp del: match_len.simps add: replacer_slash)
    next
      case False
      then show ?thesis
        using Some IH count_list_take_drop[of n "c # cs" nl]
        by (simp del: match_len.simps add: replacer_other)
    qed
  qed
qed

lemma line_comment_len_no_nl: "count_list (take (line_comment_len s) s) nl = 0"
  by (induction s) auto

lemma line_comment_len_append:
  "nl \<notin> set body \<Longrightarrow> rest = [] \<or> hd rest = nl \<Longrightarrow> line_comment_len (body @ rest) = length body"
  by (induction body) (cases rest; auto)+

lemma block_comment_len_append:
  "block_comment_len s = Some n \<Longrightarrow> block_comment_len (s @ rest) = Some n"
  by (induction s arbitrary: n rule: block_comment_len.induct) (auto split: if_splits)

lemma comment_newlines_no_star: "star \<notin> set t \<Longrightarrow> comment_newlines t = 0"
proof (induction t rule: comment_newlines.induct)
  case 1
  then show ?case by simp
next
  case (2 c cs)
  show ?case
  proof (cases "match_len (c # cs)")
    case None
    with 2 show ?thesis by (simp del: match_len.simps)
  next
    case (Some n)
    have "set (drop n (c # cs)) \<subseteq> set (c # cs)" by (rule set_drop_subset)
    with 2(3) have "star \<notin> set (drop n (c # cs))" by blast
    then have IH: "comment_newlines (drop n (c # cs)) = 0" using 2(2)[OF Some] by simp
    have "count_list (take n (c # cs)) nl = 0" if "c = slash"
    proof -
      from that Some 2(3) obtain ds where cs: "cs = slash # ds" and n: "n = 2 + line_comment_len ds"
        by (auto split: list.splits if_splits)
      show ?thesis using that line_comment_len_no_nl[of ds] by (simp add: cs n)
    qed
    with Some IH show ?thesis by (simp del: match_len.simps)
  qed
qed

lemma remove_line_comment:
  assumes "nl \<notin> set body" "rest = [] \<or> hd rest = nl"
  shows "remove_comments (''//'' @ body @ rest) = space # remove_comments rest"
  using line_comment_len_append[OF assms] by (simp add: replacer_def)

lemma remove_block_comment:
  assumes "block_comment_len (body @ ''*/'') = Some (length body + 2)"
  shows "remove_comments (''/*'' @ body @ ''*/'' @ rest) = space # remove_comments rest"
  using block_comment_len_append[OF assms, of rest] by (simp add: replacer_def)


lemma remove_comments_plain_prefix:
  "plain pre \<Longrightarrow> remove_comments (pre @ x) = pre @ remove_comments x"
  by (induction pre) (auto simp: plain_def)

lemma lit_len_append: "lit_len d q s = Some n \<Longrightarrow> lit_len d q (s @ rest) = Some n"
  by (induction d q s arbitrary: n rule: lit_len.induct) (auto split: if_splits list.splits)

lemma remove_literal:
  assumes "q = squote \<or> q = dquote" "lit_len True q lit = Some (length lit)"
  shows "remove_comments (q # lit @ rest) = q # lit @ remove_comments rest"
  using lit_len_append[OF assms(2), of rest] assms(1)
  by (auto simp del: lit_len.simps simp: replacer_def)

lemma remove_lone_slash:
  assumes "rest = [] \<or> (hd rest \<noteq> slash \<and> hd rest \<noteq> star)
           \<or> (hd rest = star \<and> block_comment_len (tl rest) = None)"
  shows "remove_comments (slash # rest) = slash # remove_comments rest"
  using assms by (cases rest) (auto simp del: block_comment_len.simps)

lemma remove_open_quote:
  assumes "q = squote \<or> q = dquote" "lit_len True q rest = None"
  shows "remove_comments (q # rest) = q # remove_comments rest"
  using assms by (auto simp del: lit_len.simps)


text \<open>
  C1 as the specification states it fails: a block comment that spans a line break becomes
  one space, so the line break is lost. The two-line text \<^verbatim>\<open>/*\<close>, \<^verbatim>\<open>*/\<close> becomes the
  one-line text of a single space.
\<close>

theorem remove_comments_line_count_counterexample:
  "remove_comments (''/*'' @ [nl] @ ''*/'') = '' '' \<and>
   length (split_nl (remove_comments (''/*'' @ [nl] @ ''*/'')))
     \<noteq> length (split_nl (''/*'' @ [nl] @ ''*/''))"
  by code_simp

text \<open>
  C1, amended. For every text \<open>t\<close>: the line count of \<open>remove_comments t\<close> is the line
  count of \<open>t\<close> less the newlines inside the replaced comments, so it is never larger, and
  it is the same when \<open>t\<close> has no star (no block comment).

  The other parts say what the scan does at the first slash or quote of a text, after a
  prefix \<open>pre\<close> without slash and quote, which is copied; each gives the result in terms of
  the result for the rest of the text, so together they say what happens at every position
  the scan reaches. A single-line comment, from \<^verbatim>\<open>//\<close> to the end of its line, becomes
  one space. A block comment, from \<^verbatim>\<open>/*\<close> to the first \<^verbatim>\<open>*/\<close>, becomes one space
  however many lines it spans. A literal, from a quote to the matching quote, is copied as
  it is, whatever it contains: comment markers inside it are not comments, also when the
  literal opens at a stray quote. A quote that opens no literal and a slash that opens no
  comment are copied.
\<close>

theorem remove_comments_line_count:
  "length (split_nl (remove_comments t)) + comment_newlines t = length (split_nl t)
   \<and> (star \<notin> set t \<longrightarrow> length (split_nl (remove_comments t)) = length (split_nl t))
   \<and> (plain pre \<longrightarrow> remove_comments pre = pre)
   \<and> (plain pre \<and> nl \<notin> set body \<and> (rest = [] \<or> hd rest = nl) \<longrightarrow>
        remove_comments (pre @ ''//'' @ body @ rest) = pre @ space # remove_comments rest)
   \<and> (plain pre \<and> block_comment_len (block @ ''*/'') = Some (length block + 2) \<longrightarrow>
        remove_comments (pre @ ''/*'' @ block @ ''*/'' @ rest) = pre @ space # remove_comments rest)
   \<and> (plain pre \<and> (q = squote \<or> q = dquote) \<and> lit_len True q lit = Some (length lit) \<longrightarrow>
        remove_comments (pre @ q # lit @ rest) = pre @ q # lit @ remove_comments rest)
   \<and> (plain pre \<and> (q = squote \<or> q = dquote) \<and> lit_len True q rest = None \<longrightarrow>
        remove_comments (pre @ q # rest) = pre @ q # remove_comments rest)
   \<and> (plain pre \<and> (rest = [] \<or> (hd rest \<noteq> slash \<and> hd rest \<noteq> star)
                     \<or> (hd rest = star \<and> block_comment_len (tl rest) = None)) \<longrightarrow>
        remove_comments (pre @ slash # rest) = pre @ slash # remove_comments rest)"
proof -
  have a: "length (split_nl (remove_comments t)) + comment_newlines t = length (split_nl t)"
    using remove_comments_newlines[of t] by (simp add: split_nl_length)
  have b: "star \<notin> set t \<longrightarrow> length (split_nl (remove_comments t)) = length (split_nl t)"
    using a comment_newlines_no_star[of t] by auto
  have c: "plain pre \<longrightarrow> remove_comments pre = pre"
    using remove_comments_plain_prefix[of pre "[]"] by simp
  have d: "plain pre \<and> nl \<notin> set body \<and> (rest = [] \<or> hd rest = nl) \<longrightarrow>
        remove_comments (pre @ ''//'' @ body @ rest) = pre @ space # remove_comments rest"
    using remove_comments_plain_prefix[of pre "''//'' @ body @ rest"] remove_line_comment[of body rest]
    by simp
  have e: "plain pre \<and> block_comment_len (block @ ''*/'') = Some (length block + 2) \<longrightarrow>
        remove_comments (pre @ ''/*'' @ block @ ''*/'' @ rest) = pre @ space # remove_comments rest"
    using remove_comments_plain_prefix[of pre "''/*'' @ block @ ''*/'' @ rest"]
      remove_block_comment[of block rest]
    by simp
  have f: "plain pre \<and> (q = squote \<or> q = dquote) \<and> lit_len True q lit = Some (length lit) \<longrightarrow>
        remove_comments (pre @ q # lit @ rest) = pre @ q # lit @ remove_comments rest"
    using remove_comments_plain_prefix[of pre "q # lit @ rest"] remove_literal[of q lit rest]
    by simp
  have g: "plain pre \<and> (q = squote \<or> q = dquote) \<and> lit_len True q rest = None \<longrightarrow>
        remove_comments (pre @ q # rest) = pre @ q # remove_comments rest"
    using remove_comments_plain_prefix[of pre "q # rest"] remove_open_quote[of q rest]
    by simp
  have h: "plain pre \<and> (rest = [] \<or> (hd rest \<noteq> slash \<and> hd rest \<noteq> star)
                     \<or> (hd rest = star \<and> block_comment_len (tl rest) = None)) \<longrightarrow>
        remove_comments (pre @ slash # rest) = pre @ slash # remove_comments rest"
    using remove_comments_plain_prefix[of pre "slash # rest"] remove_lone_slash[of rest]
    by simp
  from a b c d e f g h show ?thesis by blast
qed

theorem remove_comments_line_count_witness:
  "length (split_nl (remove_comments (''a//b'' @ [nl] @ ''/*'' @ [nl] @ ''*/c''))) + 1
     = length (split_nl (''a//b'' @ [nl] @ ''/*'' @ [nl] @ ''*/c''))
   \<and> length (split_nl (remove_comments (''x // y'' @ [nl] @ ''z'')))
       = length (split_nl (''x // y'' @ [nl] @ ''z''))
   \<and> remove_comments ''b'' = ''b''
   \<and> remove_comments (''x = 1; '' @ ''//'' @ '' y'' @ [nl] @ ''z'')
       = ''x = 1; '' @ space # remove_comments ([nl] @ ''z'')
   \<and> remove_comments (''a'' @ ''/*'' @ [] @ ''*/'' @ ''b'') = ''a'' @ space # remove_comments ''b''
   \<and> remove_comments (''p'' @ ''/*'' @ (''a'' @ [nl] @ ''b'') @ ''*/'' @ ''c'')
       = ''p'' @ space # remove_comments ''c''
   \<and> remove_comments (''var s = r'' @ squote # ([bslash, squote] @ ''; // it'' @ [squote]) @ ''s a comment'')
       = ''var s = r'' @ squote # ([bslash, squote] @ ''; // it'' @ [squote]) @ remove_comments ''s a comment''
   \<and> remove_comments (''it'' @ squote # ''s'') = ''it'' @ squote # remove_comments ''s''
   \<and> remove_comments (''a '' @ slash # '' b'') = ''a '' @ slash # remove_comments '' b''"
proof -
  let ?t = "''a//b'' @ [nl] @ ''/*'' @ [nl] @ ''*/c''"
  let ?u = "''x // y'' @ [nl] @ ''z''"
  let ?lit = "[bslash, squote] @ ''; // it'' @ [squote]"
  have 1: "length (split_nl (remove_comments ?t)) + 1 = length (split_nl ?t)"
  proof -
    have c: "comment_newlines ?t = 1" by code_simp
    from remove_comments_line_count[where t = ?t] show ?thesis unfolding c by blast
  qed
  have 2: "length (split_nl (remove_comments ?u)) = length (split_nl ?u)"
  proof -
    have s: "star \<notin> set ?u" by simp
    from remove_comments_line_count[where t = ?u] s show ?thesis by blast
  qed
  have 3: "remove_comments ''b'' = ''b''"
  proof -
    have p: "plain ''b''" by (simp add: plain_def)
    from remove_comments_line_count[where pre = "''b''"] p show ?thesis by blast
  qed
  have 4: "remove_comments (''x = 1; '' @ ''//'' @ '' y'' @ [nl] @ ''z'')
       = ''x = 1; '' @ space # remove_comments ([nl] @ ''z'')"
  proof -
    have p: "plain ''x = 1; '' \<and> nl \<notin> set '' y'' \<and> ([nl] @ ''z'' = [] \<or> hd ([nl] @ ''z'') = nl)"
      by (simp add: plain_def)
    from remove_comments_line_count[where pre = "''x = 1; ''" and body = "'' y''"
        and rest = "[nl] @ ''z''"] p
    show ?thesis by blast
  qed
  have 5: "remove_comments (''a'' @ ''/*'' @ [] @ ''*/'' @ ''b'') = ''a'' @ space # remove_comments ''b''"
  proof -
    have p: "plain ''a'' \<and> block_comment_len ([] @ ''*/'') = Some (length ([] :: string) + 2)"
      by (simp add: plain_def)
    from remove_comments_line_count[where pre = "''a''" and block = "[]" and rest = "''b''"] p
    show ?thesis by blast
  qed
  have 6: "remove_comments (''p'' @ ''/*'' @ (''a'' @ [nl] @ ''b'') @ ''*/'' @ ''c'')
       = ''p'' @ space # remove_comments ''c''"
  proof -
    have p: "plain ''p'' \<and> block_comment_len ((''a'' @ [nl] @ ''b'') @ ''*/'')
               = Some (length (''a'' @ [nl] @ ''b'') + 2)"
      by (simp add: plain_def)
    from remove_comments_line_count[where pre = "''p''" and block = "''a'' @ [nl] @ ''b''"
        and rest = "''c''"] p
    show ?thesis by blast
  qed
  have 7: "remove_comments (''var s = r'' @ squote # ?lit @ ''s a comment'')
       = ''var s = r'' @ squote # ?lit @ remove_comments ''s a comment''"
  proof -
    have p: "plain ''var s = r'' \<and> (squote = squote \<or> squote = dquote)
               \<and> lit_len True squote ?lit = Some (length ?lit)"
      by (simp add: plain_def)
    from remove_comments_line_count[where pre = "''var s = r''" and q = squote and lit = ?lit
        and rest = "''s a comment''"] p
    show ?thesis by blast
  qed
  have 8: "remove_comments (''it'' @ squote # ''s'') = ''it'' @ squote # remove_comments ''s''"
  proof -
    have p: "plain ''it'' \<and> (squote = squote \<or> squote = dquote) \<and> lit_len True squote ''s'' = None"
      by (simp add: plain_def)
    from remove_comments_line_count[where pre = "''it''" and q = squote and rest = "''s''"] p
    show ?thesis by blast
  qed
  have 9: "remove_comments (''a '' @ slash # '' b'') = ''a '' @ slash # remove_comments '' b''"
  proof -
    have p: "plain ''a '' \<and> ('' b'' = [] \<or> (hd '' b'' \<noteq> slash \<and> hd '' b'' \<noteq> star)
                     \<or> (hd '' b'' = star \<and> block_comment_len (tl '' b'') = None))"
      by (simp add: plain_def)
    from remove_comments_line_count[where pre = "''a ''" and rest = "'' b''"] p
    show ?thesis by blast
  qed
  from 1 2 3 4 5 6 7 8 9 show ?thesis by blast
qed


subsection \<open>C5: the sanitizer is idempotent\<close>

lemma lit_len_scan: "lit_len d q s = lit_scan d q False s"
  by (induction d q s rule: lit_len.induct)
     (auto simp: option.map_comp comp_def split: list.splits)

lemma lit_scan_append:
  "lit_after d q e a = Some e' \<Longrightarrow>
   lit_scan d q e (a @ b) =
     (case lit_scan d q e' b of None \<Rightarrow> None | Some n \<Rightarrow> Some (length a + n))"
  by (induction d q e a rule: lit_after.induct) (auto split: if_splits option.splits)

lemma lit_scan_open_append:
  "lit_scan True q e (a @ b) = None \<Longrightarrow>
   \<exists>e'. lit_after True q e a = Some e' \<and> lit_scan True q e' b = None"
  by (induction True q e a rule: lit_after.induct) (auto split: if_splits)

lemma lit_after_last:
  "lit_after d q e a = Some True \<Longrightarrow> a \<noteq> [] \<Longrightarrow> last a = bslash"
  by (induction d q e a rule: lit_after.induct) (auto split: if_splits)

lemma lit_scan_take:
  "lit_scan d q e s = Some n \<Longrightarrow> lit_scan d q e (take n s @ y) = Some n"
  by (induction d q e s arbitrary: n rule: lit_scan.induct) (auto split: if_splits)

lemma lit_scan_le: "lit_scan d q e s = Some n \<Longrightarrow> n \<le> length s"
  by (induction d q e s arbitrary: n rule: lit_scan.induct) (auto split: if_splits)


lemma lit_scan_pos: "lit_scan d q e s = Some n \<Longrightarrow> 0 < n"
  by (induction d q e s arbitrary: n rule: lit_scan.induct) (auto split: if_splits)

lemma rc_none: "match_len (c # cs) = None \<Longrightarrow> remove_comments (c # cs) = c # remove_comments cs"
  by (simp del: match_len.simps)

lemma rc_some:
  "match_len (c # cs) = Some n \<Longrightarrow>
   remove_comments (c # cs) = replacer (take n (c # cs)) @ remove_comments (drop n (c # cs))"
  by (simp only: remove_comments.simps option.case)

lemma rc_comment:
  assumes "match_len (slash # cs) = Some n"
  shows "remove_comments (slash # cs) = space # remove_comments (drop n (slash # cs))"
  unfolding rc_some[OF assms] replacer_slash[OF match_len_pos[OF assms]] by simp

lemma rc_literal:
  assumes "match_len (c # cs) = Some n" "c \<noteq> slash"
  shows "remove_comments (c # cs) = take n (c # cs) @ remove_comments (drop n (c # cs))"
  unfolding rc_some[OF assms(1)] replacer_other[OF assms(2)] by (rule refl)

lemma rc_hd_keep: "c \<noteq> slash \<Longrightarrow> \<exists>y. remove_comments (c # cs) = c # y"
proof (cases "match_len (c # cs)")
  case None
  then show ?thesis by (simp add: rc_none)
next
  case (Some n)
  assume "c \<noteq> slash"
  from rc_literal[OF Some this] match_len_pos[OF Some] show ?thesis
    by (cases n) simp_all
qed

lemma rc_hd_slash:
  assumes "remove_comments s = slash # y"
  shows "\<exists>ds. s = slash # ds"
proof (cases s)
  case Nil
  with assms show ?thesis by simp
next
  case (Cons c cs)
  show ?thesis
  proof (cases "c = slash")
    case True
    with Cons show ?thesis by simp
  next
    case False
    from rc_hd_keep[OF False, of cs] assms Cons show ?thesis by auto
  qed
qed

lemma bcl_Cons:
  "block_comment_len (c # cs) = None \<longleftrightarrow>
   \<not> (c = star \<and> cs \<noteq> [] \<and> hd cs = slash) \<and> block_comment_len cs = None"
  by (cases cs) auto

lemma bcl_append_None:
  "block_comment_len (a @ b) = None \<longleftrightarrow>
   block_comment_len a = None \<and> block_comment_len b = None
   \<and> \<not> (a \<noteq> [] \<and> last a = star \<and> b \<noteq> [] \<and> hd b = slash)"
proof (induction a)
  case Nil
  then show ?case by simp
next
  case (Cons c a)
  show ?case
    unfolding append_Cons bcl_Cons Cons.IH
    by (cases a) auto
qed

lemma rc_bcl_None:
  "block_comment_len s = None \<Longrightarrow> block_comment_len (remove_comments s) = None"
proof (induction "length s" arbitrary: s rule: less_induct)
  case less
  show ?case
  proof (cases s)
    case Nil
    then show ?thesis by simp
  next
    case (Cons c cs)
    show ?thesis
    proof (cases "match_len (c # cs)")
      case None
      from less.prems Cons have cs: "block_comment_len cs = None"
        and nst: "\<not> (c = star \<and> cs \<noteq> [] \<and> hd cs = slash)"
        by (simp_all add: bcl_Cons)
      have IH: "block_comment_len (remove_comments cs) = None"
        using less.hyps[of cs] cs Cons by simp
      have "\<not> (c = star \<and> remove_comments cs \<noteq> [] \<and> hd (remove_comments cs) = slash)"
      proof
        assume a: "c = star \<and> remove_comments cs \<noteq> [] \<and> hd (remove_comments cs) = slash"
        then obtain y where "remove_comments cs = slash # y"
          by (cases "remove_comments cs") auto
        from rc_hd_slash[OF this] a nst show False by auto
      qed
      with IH show ?thesis unfolding Cons rc_none[OF None] bcl_Cons by simp
    next
      case (Some n)
      let ?m = "take n (c # cs)" and ?r = "drop n (c # cs)"
      have pos: "0 < n" using Some by (rule match_len_pos)
      have split: "block_comment_len (?m @ ?r) = None" using less.prems Cons by simp
      then have m: "block_comment_len ?m = None" and r: "block_comment_len ?r = None"
        and nst: "\<not> (?m \<noteq> [] \<and> last ?m = star \<and> ?r \<noteq> [] \<and> hd ?r = slash)"
        unfolding bcl_append_None by blast+
      have IH: "block_comment_len (remove_comments ?r) = None"
        using less.hyps[of ?r] r pos Cons by simp
      show ?thesis
      proof (cases "c = slash")
        case True
        with Some IH show ?thesis unfolding Cons
          by (simp only: rc_comment bcl_Cons) simp
      next
        case False
        have "\<not> (?m \<noteq> [] \<and> last ?m = star \<and> remove_comments ?r \<noteq> []
                 \<and> hd (remove_comments ?r) = slash)"
        proof
          assume a: "?m \<noteq> [] \<and> last ?m = star \<and> remove_comments ?r \<noteq> []
                 \<and> hd (remove_comments ?r) = slash"
          then obtain y where "remove_comments ?r = slash # y"
            by (cases "remove_comments ?r") auto
          from rc_hd_slash[OF this] a nst show False by auto
        qed
        with m IH show ?thesis
          unfolding Cons rc_literal[OF Some False] bcl_append_None by blast
      qed
    qed
  qed
qed


lemma bcl_split:
  "block_comment_len s = Some k \<Longrightarrow> \<exists>a b. s = a @ ''*/'' @ b \<and> k = length a + 2"
proof (induction s arbitrary: k rule: block_comment_len.induct)
  case 1
  then show ?case by simp
next
  case (2 c)
  then show ?case by simp
next
  case (3 c d ds)
  show ?case
  proof (cases "c = star \<and> d = slash")
    case True
    with 3(2) have "k = 2" by simp
    with True show ?thesis by (intro exI[of _ "[]"] exI[of _ ds]) simp
  next
    case False
    with 3(2) obtain j where j: "block_comment_len (d # ds) = Some j" and k: "k = Suc j"
      by auto
    from 3(1)[OF False j] obtain a b where "d # ds = a @ ''*/'' @ b" "j = length a + 2"
      by blast
    then show ?thesis using k by (intro exI[of _ "c # a"] exI[of _ b]) simp
  qed
qed

lemma line_comment_rest:
  "drop (line_comment_len s) s = [] \<or> hd (drop (line_comment_len s) s) = nl"
  by (induction s) auto

lemma comment_rest:
  assumes "match_len (slash # cs) = Some n"
  shows "last (take n (slash # cs)) = slash
         \<or> drop n (slash # cs) = [] \<or> hd (drop n (slash # cs)) = nl"
proof -
  from assms obtain d ds where cs: "cs = d # ds" by (cases cs) auto
  show ?thesis
  proof (cases "d = slash")
    case True
    with assms cs have n: "n = 2 + line_comment_len ds" by simp
    show ?thesis using line_comment_rest[of ds] by (simp add: cs n)
  next
    case False
    with assms cs obtain k where k: "block_comment_len ds = Some k" and n: "n = k + 2"
      by (auto split: if_splits)
    from bcl_split[OF k] obtain a b where ds: "ds = a @ ''*/'' @ b" and ka: "k = length a + 2"
      by blast
    have "take n (slash # cs) = slash # d # a @ ''*/''"
      by (simp add: cs n ds ka)
    then show ?thesis by simp
  qed
qed

lemma rc_lit_open:
  assumes q: "q \<noteq> space" "q \<noteq> nl"
  shows "lit_scan True q e x = None \<Longrightarrow> lit_scan True q e (remove_comments x) = None"
proof (induction "length x" arbitrary: x e rule: less_induct)
  case less
  show ?case
  proof (cases x)
    case Nil
    then show ?thesis by simp
  next
    case (Cons c cs)
    show ?thesis
    proof (cases "match_len (c # cs)")
      case None
      have step: "\<exists>e'. \<forall>y. lit_scan True q e (c # y) = None \<longleftrightarrow> lit_scan True q e' y = None"
        if "lit_scan True q e (c # cs) = None"
        using that by (cases e) (auto split: if_splits)
      from less.prems Cons step obtain e' where
        e': "\<And>y. lit_scan True q e (c # y) = None \<longleftrightarrow> lit_scan True q e' y = None"
        by blast
      from less.prems Cons e' have "lit_scan True q e' cs = None" by simp
      then have "lit_scan True q e' (remove_comments cs) = None"
        using less.hyps[of cs e'] Cons by simp
      then show ?thesis unfolding Cons rc_none[OF None] e' .
    next
      case (Some n)
      let ?m = "take n (c # cs)" and ?r = "drop n (c # cs)"
      have pos: "0 < n" using Some by (rule match_len_pos)
      have "lit_scan True q e (?m @ ?r) = None" using less.prems Cons by simp
      from lit_scan_open_append[OF this] obtain e' where
        after: "lit_after True q e ?m = Some e'" and rest: "lit_scan True q e' ?r = None"
        by blast
      have len: "length ?r < length x" using pos Cons by simp
      show ?thesis
      proof (cases "c = slash")
        case False
        have "lit_scan True q e' (remove_comments ?r) = None"
          using less.hyps[OF len rest] .
        then have "lit_scan True q e (?m @ remove_comments ?r) = None"
          by (simp add: lit_scan_append[OF after])
        then show ?thesis unfolding Cons rc_literal[OF Some False] .
      next
        case True
        have goal: "lit_scan True q False (remove_comments ?r) = None"
        proof (cases e')
          case False
          with less.hyps[OF len rest] show ?thesis by simp
        next
          case True
          have "?m \<noteq> []" using pos by simp
          with after True have "last ?m = bslash" by (simp add: lit_after_last)
          with comment_rest[OF Some[unfolded \<open>c = slash\<close>]] \<open>c = slash\<close>
          have "?r = [] \<or> hd ?r = nl" by auto
          then show ?thesis
          proof
            assume "?r = []"
            then show ?thesis by simp
          next
            assume h: "hd ?r = nl"
            show ?thesis
            proof (cases ?r)
              case Nil
              then show ?thesis by simp
            next
              case (Cons d r)
              with h have d: "d = nl" by simp
              from rest True Cons d have r: "lit_scan True q False r = None" by simp
              have "length r < length x" using len Cons by simp
              from less.hyps[OF this r] have "lit_scan True q False (remove_comments r) = None" .
              then show ?thesis using q by (simp add: Cons d)
            qed
          qed
        qed
        have "remove_comments x = space # remove_comments ?r"
          using rc_comment[of cs n] Some True Cons by simp
        then show ?thesis using goal q by (cases e) simp_all
      qed
    qed
  qed
qed


lemma rc_match_none:
  assumes "match_len (c # cs) = None"
  shows "match_len (c # remove_comments cs) = None"
proof (cases "c = slash")
  case True
  show ?thesis
  proof (cases cs)
    case Nil
    with True show ?thesis by simp
  next
    case (Cons d ds)
    with assms True have d: "d \<noteq> slash" by auto
    show ?thesis
    proof (cases "d = star")
      case star: True
      with assms \<open>c = slash\<close> Cons have "block_comment_len ds = None" by simp
      then have "block_comment_len (remove_comments ds) = None" by (rule rc_bcl_None)
      moreover have "remove_comments cs = star # remove_comments ds"
        using Cons star by simp
      ultimately show ?thesis using \<open>c = slash\<close> by simp
    next
      case False
      from rc_hd_keep[OF d, of ds] Cons obtain y where "remove_comments cs = d # y" by auto
      with False d \<open>c = slash\<close> show ?thesis by simp
    qed
  qed
next
  case False
  show ?thesis
  proof (cases "c = squote \<or> c = dquote")
    case True
    with assms False have "lit_scan True c False cs = None" by (simp add: lit_len_scan)
    moreover from True have "c \<noteq> space" "c \<noteq> nl" by auto
    ultimately have "lit_scan True c False (remove_comments cs) = None"
      using rc_lit_open by blast
    with True False show ?thesis by (simp add: lit_len_scan)
  next
    case other: False
    with False show ?thesis by simp
  qed
qed

lemma match_len_literal_local:
  assumes "match_len (c # cs) = Some n" "c \<noteq> slash"
  shows "match_len (take n (c # cs) @ y) = Some n \<and> length (take n (c # cs)) = n"
proof -
  from assms obtain k where q: "c = squote \<or> c = dquote" and k: "lit_scan True c False cs = Some k"
    and n: "n = Suc k"
    by (auto simp: lit_len_scan split: if_splits)
  from lit_scan_take[OF k, of y] have "lit_scan True c False (take k cs @ y) = Some k" .
  moreover from lit_scan_le[OF k] have "k \<le> length cs" .
  ultimately show ?thesis using q n assms(2) by (simp add: lit_len_scan)
qed

lemma remove_comments_idem: "remove_comments (remove_comments x) = remove_comments x"
proof (induction "length x" arbitrary: x rule: less_induct)
  case less
  show ?case
  proof (cases x)
    case Nil
    then show ?thesis by simp
  next
    case (Cons c cs)
    show ?thesis
    proof (cases "match_len (c # cs)")
      case None
      have IH: "remove_comments (remove_comments cs) = remove_comments cs"
        using less[of cs] Cons by simp
      show ?thesis
        unfolding Cons rc_none[OF None] rc_none[OF rc_match_none[OF None]] IH by (rule refl)
    next
      case (Some n)
      let ?m = "take n (c # cs)" and ?r = "drop n (c # cs)"
      have pos: "0 < n" using Some by (rule match_len_pos)
      have IH: "remove_comments (remove_comments ?r) = remove_comments ?r"
        using less[of ?r] pos Cons by simp
      show ?thesis
      proof (cases "c = slash")
        case True
        have "match_len (space # remove_comments ?r) = None" by simp
        from rc_none[OF this] IH show ?thesis
          unfolding Cons using rc_comment[of cs n] Some True by simp
      next
        case False
        from match_len_literal_local[OF Some False, of "remove_comments ?r"]
        have m: "match_len (?m @ remove_comments ?r) = Some n" and l: "length ?m = n" by blast+
        obtain m' where m': "?m = c # m'" using pos by (cases n) auto
        let ?Y = "remove_comments ?r"
        have e: "c # (m' @ ?Y) = ?m @ ?Y" by (simp only: m' append_Cons)
        have t: "take n (?m @ ?Y) = ?m" using l by simp
        have d: "drop n (?m @ ?Y) = ?Y" using l by simp
        have m2: "match_len (c # (m' @ ?Y)) = Some n" using m unfolding e .
        have "remove_comments (?m @ ?Y) = ?m @ remove_comments ?Y"
          using rc_literal[OF m2 False] unfolding e t d .
        with IH show ?thesis unfolding Cons rc_literal[OF Some False] by simp
      qed
    qed
  qed
qed


text \<open>
  C5. For every text, applying \<open>remove_comments\<close> twice gives what applying it once gives.
  After the first pass no comment is left to replace: a quote that found no closing quote
  still finds none (\<open>rc_lit_open\<close>), a \<^verbatim>\<open>/*\<close> that found no \<^verbatim>\<open>*/\<close> still finds none
  (\<open>rc_bcl_None\<close>), and every literal is matched again as it was.
\<close>

theorem remove_comments_idempotent:
  "remove_comments (remove_comments t) = remove_comments t"
  by (rule remove_comments_idem)

theorem remove_comments_idempotent_witness:
  "remove_comments (remove_comments (''a /* b */ '' @ [dquote] @ ''//c'' @ [dquote] @ '' // d''))
   = remove_comments (''a /* b */ '' @ [dquote] @ ''//c'' @ [dquote] @ '' // d'')"
  by (rule remove_comments_idempotent)


subsection \<open>C6 and C2: the complexity score\<close>

lemma foldl_add_sum: "foldl (\<lambda>s k. s + f k) a ks = a + sum_list (map f ks)"
  by (induction ks arbitrary: a) (auto simp: add.assoc)

lemma calculate_complexity_sum:
  "calculate_complexity t =
     1 + sum_list (map (\<lambda>kw. findall_count kw None t) keyword_patterns)
       + sum_list (map (\<lambda>op. findall_count op None t) operator_patterns)"
  by (simp add: calculate_complexity_def Let_def foldl_add_sum)

lemma match_seq_chars:
  "match_seq (map Ch w @ r) p s =
     (if take (length w) s = w \<and> length w \<le> length s
      then (case match_seq r (if w = [] then p else Some (last w)) (drop (length w) s) of
              None \<Rightarrow> None | Some n \<Rightarrow> Some (length w + n))
      else None)"
proof (induction w arbitrary: p s)
  case Nil
  then show ?case by (simp split: option.splits)
next
  case (Cons a w)
  show ?case
  proof (cases s)
    case Nil
    then show ?thesis by simp
  next
    case (Cons d s')
    show ?thesis
      unfolding Cons using Cons.IH[of "Some d" s']
      by (auto split: option.splits)
  qed
qed

lemma match_seq_word_pat:
  assumes "w \<noteq> []"
  shows "match_seq (word_pat w) p s =
     (if word_boundary p s \<and> take (length w) s = w \<and> length w \<le> length s
         \<and> word_boundary (Some (last w)) (drop (length w) s)
      then Some (length w) else None)"
  using assms match_seq_chars[of w "[WB]" p s]
  by (simp add: word_pat_def)

lemma word_at_split: "word_at w p t \<Longrightarrow> t = w @ drop (length w) t"
  unfolding word_at_def by (metis append_take_drop_id)

lemma findall_word_at:
  assumes "w \<noteq> []" "word_at w p t"
  shows "findall_count (word_pat w) p t
         = Suc (findall_count (word_pat w) (Some (last w)) (drop (length w) t))"
proof -
  from assms obtain c cs where t: "t = c # cs" by (cases t) (auto simp: word_at_def)
  have d: "drop (length w - 1) cs = drop (length w) (c # cs)"
    using assms by (cases w) simp_all
  have m: "match_seq (word_pat w) p (c # cs) = Some (length w)"
    using assms unfolding t word_at_def by (simp add: match_seq_word_pat)
  have l: "last (take (length w) (c # cs)) = last w"
    using assms unfolding t word_at_def by simp
  show ?thesis unfolding t findall_count.simps m option.case l d by (rule refl)
qed

lemma findall_not_word_at:
  assumes "w \<noteq> []" "\<not> word_at w p (c # cs)"
  shows "findall_count (word_pat w) p (c # cs) = findall_count (word_pat w) (Some c) cs"
proof -
  have m: "match_seq (word_pat w) p (c # cs) = None"
    using assms unfolding word_at_def by (simp add: match_seq_word_pat)
  show ?thesis unfolding findall_count.simps m option.case by (rule refl)
qed

lemma is_word_letters [simp]:
  "is_word CHR ''i''" "is_word CHR ''f''" "is_word CHR ''e''" "\<not> is_word CHR '' ''"
  by (simp_all add: is_word_def)

lemma if_in_else_if:
  assumes "word_boundary (Some CHR ''f'') r"
  shows "findall_count (word_pat ''if'') p (''else if'' @ r)
         = Suc (findall_count (word_pat ''if'') (Some CHR ''f'') r)"
proof -
  let ?IF = "word_pat ''if''"
  have n: "\<And>p c cs. c \<noteq> CHR ''i'' \<Longrightarrow>
          findall_count ?IF p (c # cs) = findall_count ?IF (Some c) cs"
    by (rule findall_not_word_at) (simp_all add: word_at_def)
  have "word_at ''if'' (Some CHR '' '') (''if'' @ r)"
    using assms by (simp add: word_at_def word_boundary_def)
  from findall_word_at[OF _ this]
  have "findall_count ?IF (Some CHR '' '') (''if'' @ r) = Suc (findall_count ?IF (Some CHR ''f'') r)"
    by simp
  then show ?thesis by (simp add: n del: findall_count.simps)
qed

lemma else_if_le_if:
  "findall_count (word_pat ''else if'') p t \<le> findall_count (word_pat ''if'') p t"
proof (induction "length t" arbitrary: t p rule: less_induct)
  case less
  let ?EI = "word_pat ''else if''" and ?IF = "word_pat ''if''"
  let ?f = "Some CHR ''f''"
  show ?case
  proof (cases t)
    case Nil
    then show ?thesis by simp
  next
    case (Cons c cs)
    show ?thesis
    proof (cases "word_at ''else if'' p t")
      case True
      define r where "r = drop (length ''else if'') t"
      from word_at_split[OF True] have t: "t = ''else if'' @ r" unfolding r_def .
      have "findall_count ?EI p t = Suc (findall_count ?EI (Some (last ''else if'')) r)"
        unfolding r_def by (rule findall_word_at[OF _ True]) simp
      then have ei: "findall_count ?EI p t = Suc (findall_count ?EI ?f r)" by simp
      have "word_boundary (Some (last ''else if'')) r"
        using True unfolding word_at_def r_def by blast
      then have "word_boundary ?f r" by simp
      from if_in_else_if[OF this, of p]
      have i: "findall_count ?IF p t = Suc (findall_count ?IF ?f r)" unfolding t .
      have "length r < length t" unfolding t by simp
      from less[OF this, of ?f] ei i show ?thesis by simp
    next
      case False
      have ei: "findall_count ?EI p t = findall_count ?EI (Some c) cs"
        unfolding Cons by (rule findall_not_word_at) (use False Cons in simp_all)
      show ?thesis
      proof (cases "word_at ''if'' p t")
        case True
        define r where "r = drop (length ''if'') t"
        from word_at_split[OF True] have t: "t = ''if'' @ r" unfolding r_def .
        have "findall_count ?IF p t = Suc (findall_count ?IF (Some (last ''if'')) r)"
          unfolding r_def by (rule findall_word_at[OF _ True]) simp
        then have i: "findall_count ?IF p t = Suc (findall_count ?IF ?f r)" by simp
        have cs: "cs = CHR ''f'' # r" using Cons t by simp
        have "findall_count ?EI (Some c) (CHR ''f'' # r) = findall_count ?EI ?f r"
          by (rule findall_not_word_at) (simp_all add: word_at_def)
        then have e2: "findall_count ?EI (Some c) cs = findall_count ?EI ?f r"
          unfolding cs .
        have "length r < length t" unfolding t by simp
        from less[OF this, of ?f]
        have "findall_count ?EI ?f r \<le> findall_count ?IF ?f r" .
        then show ?thesis unfolding ei e2 i by simp
      next
        case nif: False
        have i: "findall_count ?IF p t = findall_count ?IF (Some c) cs"
          unfolding Cons by (rule findall_not_word_at) (use nif Cons in simp_all)
        have "length cs < length t" using Cons by simp
        from less[OF this, of "Some c"] show ?thesis unfolding ei i .
      qed
    qed
  qed
qed

lemma complexity_else_if:
  "1 + 2 * findall_count (word_pat ''else if'') None t \<le> calculate_complexity t"
  using else_if_le_if[of None t]
  by (simp add: calculate_complexity_sum keyword_patterns_def)

text \<open>
  C6. In every text each match of the \<^verbatim>\<open>else if\<close> pattern contains a match of the
  \<^verbatim>\<open>if\<close> pattern, so the \<^verbatim>\<open>if\<close> count is at least the \<^verbatim>\<open>else if\<close> count and each
  \<^verbatim>\<open>else if\<close> adds two to the score; the text \<^verbatim>\<open>else if\<close> alone scores 1 + 2.
\<close>

theorem else_if_counts_twice:
  "findall_count (word_pat ''else if'') None t \<le> findall_count (word_pat ''if'') None t
   \<and> 1 + 2 * findall_count (word_pat ''else if'') None t \<le> calculate_complexity t
   \<and> calculate_complexity ''else if'' = 3"
proof -
  have "calculate_complexity ''else if'' = 3" by code_simp
  with else_if_le_if[of None t] complexity_else_if[of t] show ?thesis by blast
qed

theorem else_if_counts_twice_witness:
  "findall_count (word_pat ''else if'') None ''if (a) {} else if (b) {}'' = 1
   \<and> findall_count (word_pat ''if'') None ''if (a) {} else if (b) {}'' = 2
   \<and> calculate_complexity ''if (a) {} else if (b) {}'' = 4
   \<and> 1 + 2 * findall_count (word_pat ''else if'') None ''if (a) {} else if (b) {}''
        \<le> calculate_complexity ''if (a) {} else if (b) {}''"
proof -
  have 1: "findall_count (word_pat ''else if'') None ''if (a) {} else if (b) {}'' = 1"
    by code_simp
  have 2: "findall_count (word_pat ''if'') None ''if (a) {} else if (b) {}'' = 2"
    by code_simp
  have 3: "calculate_complexity ''if (a) {} else if (b) {}'' = 4"
    by code_simp
  from else_if_counts_twice[of "''if (a) {} else if (b) {}''"] 1 2 3 show ?thesis by blast
qed





subsection \<open>The extraction loop: C10 and C7\<close>

lemma analyze_line_idle:
  "\<not> in_function st \<Longrightarrow> \<not> starts_capture line \<Longrightarrow> analyze_line st (i, line) = st"
  by (auto simp: analyze_line_def Let_def starts_capture_def net_open_def split: option.splits)

lemma analyze_line_start:
  assumes "\<not> in_function st" "starts_capture line"
  shows "analyze_line st (i, line) =
     st\<lparr>in_function := True, brace_balance := delta line, func_start_line := i,
        func_name := the (func_def_pattern (line_no_strings line)), func_content := [line]\<rparr>"
  using assms
  by (auto simp: analyze_line_def Let_def starts_capture_def net_open_def delta_def
           split: option.splits)

lemma analyze_line_continue:
  assumes "in_function st" "brace_balance st + delta line \<noteq> 0"
  shows "analyze_line st (i, line) =
     st\<lparr>func_content := func_content st @ [line],
        brace_balance := brace_balance st + delta line\<rparr>"
  using assms by (simp add: analyze_line_def Let_def delta_def)

lemma analyze_line_end:
  assumes "in_function st" "brace_balance st + delta line = 0"
  shows "analyze_line st (i, line) =
     st\<lparr>func_content := func_content st @ [line], brace_balance := 0, in_function := False,
        violations := violations st
          @ function_violations (func_name st) (func_start_line st) (func_content st @ [line])\<rparr>"
  using assms by (simp add: analyze_line_def Let_def delta_def)

lemma run_lines_snoc: "run_lines (ls @ [l]) = analyze_line (run_lines ls) (length ls, l)"
  by (simp add: run_lines_def enumerate_append_eq)

lemma run_lines_Nil: "run_lines [] = init_state"
  by (simp add: run_lines_def)

lemma run_lines_idle:
  "list_all (\<lambda>l. \<not> starts_capture l) ls \<Longrightarrow> run_lines ls = init_state"
proof (induction ls rule: rev_induct)
  case Nil
  then show ?case by (simp add: run_lines_Nil)
next
  case (snoc l ls)
  then have "run_lines ls = init_state" and n: "\<not> starts_capture l" by simp_all
  then show ?case
    unfolding run_lines_snoc using analyze_line_idle[of init_state l "length ls"]
    by (simp add: init_state_def)
qed

lemma capture_invariant:
  "in_function (run_lines ls) \<Longrightarrow>
     func_start_line (run_lines ls) < length ls
     \<and> func_content (run_lines ls) = drop (func_start_line (run_lines ls)) ls
     \<and> \<not> in_function (run_lines (take (func_start_line (run_lines ls)) ls))
     \<and> violations (run_lines ls)
         = violations (run_lines (take (func_start_line (run_lines ls)) ls))"
proof (induction ls rule: rev_induct)
  case Nil
  then show ?case by (simp add: run_lines_Nil init_state_def)
next
  case (snoc l ls)
  let ?st = "run_lines ls"
  show ?case
  proof (cases "in_function ?st")
    case True
    note IH = snoc.IH[OF True]
    show ?thesis
    proof (cases "brace_balance ?st + delta l = 0")
      case z: True
      with snoc.prems True show ?thesis
        unfolding run_lines_snoc by (simp add: analyze_line_end)
    next
      case False
      with True IH show ?thesis
        unfolding run_lines_snoc by (simp add: analyze_line_continue)
    qed
  next
    case False
    show ?thesis
    proof (cases "starts_capture l")
      case True
      with False show ?thesis
        unfolding run_lines_snoc by (simp add: analyze_line_start)
    next
      case nstart: False
      with False snoc.prems show ?thesis
        unfolding run_lines_snoc by (simp add: analyze_line_idle)
    qed
  qed
qed


lemma function_violations_prefix:
  "list_all (starts_with ''  - Function '') (function_violations name start content)"
  by (simp add: function_violations_def Let_def loc_message_def complexity_message_def
        starts_with_def)

lemma analyze_line_violations_prefix:
  assumes "list_all (starts_with ''  - Function '') (violations st)"
  shows "list_all (starts_with ''  - Function '') (violations (analyze_line st (i, l)))"
proof (cases "in_function st")
  case True
  show ?thesis
  proof (cases "brace_balance st + delta l = 0")
    case z: True
    show ?thesis
      unfolding analyze_line_end[OF True z] using assms function_violations_prefix by simp
  next
    case False
    show ?thesis unfolding analyze_line_continue[OF True False] using assms by simp
  qed
next
  case False
  show ?thesis
  proof (cases "starts_capture l")
    case True
    show ?thesis unfolding analyze_line_start[OF False True] using assms by simp
  next
    case ns: False
    show ?thesis unfolding analyze_line_idle[OF False ns] using assms by simp
  qed
qed

lemma run_lines_violations_prefix:
  "list_all (starts_with ''  - Function '') (violations (run_lines ls))"
proof (induction ls rule: rev_induct)
  case Nil
  then show ?case by (simp add: run_lines_Nil init_state_def)
next
  case (snoc l ls)
  then show ?case unfolding run_lines_snoc by (rule analyze_line_violations_prefix)
qed

lemma function_line_not_file_line:
  "starts_with ''  - Function '' v \<Longrightarrow> \<not> starts_with ''  - File LOC '' v"
  by (auto simp: starts_with_def take_Suc_conv_app_nth dest!: arg_cong[where f = "\<lambda>x. take 5 (drop 4 x)"])

lemma no_file_lines:
  "list_all (starts_with ''  - Function '') vs \<Longrightarrow> filter (starts_with ''  - File LOC '') vs = []"
  by (induction vs) (auto dest: function_line_not_file_line)


lemma capture_continues:
  "in_function st \<Longrightarrow> never_zero (brace_balance st) post \<Longrightarrow>
     in_function (foldl analyze_line st (enumerate n post))
     \<and> func_start_line (foldl analyze_line st (enumerate n post)) = func_start_line st
     \<and> func_name (foldl analyze_line st (enumerate n post)) = func_name st
     \<and> func_content (foldl analyze_line st (enumerate n post)) = func_content st @ post
     \<and> violations (foldl analyze_line st (enumerate n post)) = violations st"
proof (induction post arbitrary: st n)
  case Nil
  then show ?case by simp
next
  case (Cons l post)
  from Cons.prems have nz: "brace_balance st + delta l \<noteq> 0"
    and rest: "never_zero (brace_balance st + delta l) post" by simp_all
  let ?s = "analyze_line st (n, l)"
  have s: "?s = st\<lparr>func_content := func_content st @ [l],
                     brace_balance := brace_balance st + delta l\<rparr>"
    by (rule analyze_line_continue[OF Cons.prems(1) nz])
  have "in_function ?s" "never_zero (brace_balance ?s) post"
    using Cons.prems(1) rest by (simp_all add: s)
  from Cons.IH[OF this, of "Suc n"] show ?case by (simp add: s)
qed

lemma run_lines_split:
  "run_lines (pre @ l # post) =
     foldl analyze_line (analyze_line (run_lines pre) (length pre, l))
       (enumerate (Suc (length pre)) post)"
  by (simp add: run_lines_def enumerate_append_eq)

lemma stays_capturing:
  assumes "\<not> in_function (run_lines pre)" "starts_capture l" "never_zero 0 (l # post)"
  shows "in_function (run_lines (pre @ l # post))
     \<and> func_start_line (run_lines (pre @ l # post)) = length pre
     \<and> func_content (run_lines (pre @ l # post)) = l # post
     \<and> violations (run_lines (pre @ l # post)) = violations (run_lines pre)"
proof -
  let ?s = "analyze_line (run_lines pre) (length pre, l)"
  note s = analyze_line_start[OF assms(1,2), of "length pre"]
  have "in_function ?s" "never_zero (brace_balance ?s) post"
    using assms(3) by (simp_all add: s)
  from capture_continues[OF this, of "Suc (length pre)"] show ?thesis
    unfolding run_lines_split by (simp add: s)
qed

lemma capturing_balance: "in_function (run_lines ls) \<Longrightarrow> brace_balance (run_lines ls) \<noteq> 0"
proof (induction ls rule: rev_induct)
  case Nil
  then show ?case by (simp add: run_lines_Nil init_state_def)
next
  case (snoc l ls)
  let ?st = "run_lines ls"
  show ?case
  proof (cases "in_function ?st")
    case True
    show ?thesis
    proof (cases "brace_balance ?st + delta l = 0")
      case z: True
      with snoc.prems True show ?thesis
        unfolding run_lines_snoc by (simp add: analyze_line_end)
    next
      case False
      with True show ?thesis unfolding run_lines_snoc by (simp add: analyze_line_continue)
    qed
  next
    case False
    show ?thesis
    proof (cases "starts_capture l")
      case True
      then have "delta l \<noteq> 0" by (simp add: starts_capture_def net_open_def delta_def)
      with False True show ?thesis unfolding run_lines_snoc by (simp add: analyze_line_start)
    next
      case ns: False
      with False snoc.prems show ?thesis unfolding run_lines_snoc by (simp add: analyze_line_idle)
    qed
  qed
qed

lemma balanced_line_absorbed:
  assumes "in_function (run_lines ls)"
    and "count_list (line_no_strings line) (CHR ''{'') = count_list (line_no_strings line) (CHR ''}'')"
  shows "run_lines (ls @ [line]) = (run_lines ls)\<lparr>func_content := func_content (run_lines ls) @ [line]\<rparr>"
proof -
  have d: "delta line = 0" using assms(2) by (simp add: delta_def)
  have "brace_balance (run_lines ls) + delta line \<noteq> 0"
    using capturing_balance[OF assms(1)] d by simp
  from analyze_line_continue[OF assms(1) this, of "length ls"] show ?thesis
    unfolding run_lines_snoc by (simp add: d)
qed


text \<open>
  C10 as the specification states it fails: the loop counts the braces of the line after
  literal masking, not the braces of the line. The one-line function
  \<^verbatim>\<open>void f() { print("don't"); g('}'); h("{"); }\<close> has two opening and two closing
  braces, but the apostrophe opens a literal that hides the quoted closing brace, so after
  masking it has two opening braces and one closing brace: it is captured under the name
  \<open>f\<close>. And a one-line function that stands inside a captured function is analyzed with
  it: the eleven \<^verbatim>\<open>if\<close> of the one-line \<open>g\<close> below give the enclosing \<open>f\<close> its
  complexity violation.
\<close>

theorem one_line_function_captured_counterexample:
  "count_list (''void f() { print('' @ [dquote] @ ''don'' @ [squote] @ ''t'' @ [dquote] @ ''); g(''
                 @ [squote] @ ''}'' @ [squote] @ ''); h('' @ [dquote] @ ''{'' @ [dquote] @ ''); }'') (CHR ''{'')
     = count_list (''void f() { print('' @ [dquote] @ ''don'' @ [squote] @ ''t'' @ [dquote] @ ''); g(''
                 @ [squote] @ ''}'' @ [squote] @ ''); h('' @ [dquote] @ ''{'' @ [dquote] @ ''); }'') (CHR ''}'')
   \<and> in_function (run_lines [''void f() { print('' @ [dquote] @ ''don'' @ [squote] @ ''t'' @ [dquote] @ ''); g(''
                 @ [squote] @ ''}'' @ [squote] @ ''); h('' @ [dquote] @ ''{'' @ [dquote] @ ''); }''])
   \<and> func_name (run_lines [''void f() { print('' @ [dquote] @ ''don'' @ [squote] @ ''t'' @ [dquote] @ ''); g(''
                 @ [squote] @ ''}'' @ [squote] @ ''); h('' @ [dquote] @ ''{'' @ [dquote] @ ''); }'']) = ''f''
   \<and> func_content (run_lines [''void f() { print('' @ [dquote] @ ''don'' @ [squote] @ ''t'' @ [dquote] @ ''); g(''
                 @ [squote] @ ''}'' @ [squote] @ ''); h('' @ [dquote] @ ''{'' @ [dquote] @ ''); }''])
       = [''void f() { print('' @ [dquote] @ ''don'' @ [squote] @ ''t'' @ [dquote] @ ''); g(''
                 @ [squote] @ ''}'' @ [squote] @ ''); h('' @ [dquote] @ ''{'' @ [dquote] @ ''); }'']
   \<and> analyze_functions (''void f() {'' @ [nl]
        @ ''  int g(a) { if (a) {} if (a) {} if (a) {} if (a) {} if (a) {} if (a) {} if (a) {} if (a) {} if (a) {} if (a) {} if (a) {} }''
        @ [nl] @ ''}'')
       = [complexity_message ''f'' 0 12]"
  by code_simp

text \<open>
  C10, amended. The counts are those of the line after literal masking. Outside a function,
  a line whose opening braces do not exceed its closing braces leaves every variable of the
  loop as it was: no capture starts and nothing is reported; so capture starts only on a
  line with strictly more opening than closing braces. Inside a function that is being
  captured, a line with as many opening as closing braces is appended to the content of
  that function and changes nothing else: no function of its own starts, nothing is
  reported at that line, and its text is measured with the enclosing function. A text made
  of lines without excess opening braces (for instance one-line functions at top level)
  yields no violation at all.
\<close>

theorem one_line_function_not_captured:
  "(\<not> in_function st
      \<and> count_list (line_no_strings line) (CHR ''{'') \<le> count_list (line_no_strings line) (CHR ''}'')
      \<longrightarrow> analyze_line st (i, line) = st)
   \<and> (in_function (run_lines ls)
      \<and> count_list (line_no_strings line) (CHR ''{'') = count_list (line_no_strings line) (CHR ''}'')
      \<longrightarrow> run_lines (ls @ [line])
            = (run_lines ls)\<lparr>func_content := func_content (run_lines ls) @ [line]\<rparr>)
   \<and> (list_all (\<lambda>l. count_list (line_no_strings l) (CHR ''{'')
                       \<le> count_list (line_no_strings l) (CHR ''}'')) (split_nl t)
      \<longrightarrow> run_lines (split_nl t) = init_state \<and> analyze_functions t = [])"
proof (intro conjI impI)
  assume "\<not> in_function st
      \<and> count_list (line_no_strings line) (CHR ''{'') \<le> count_list (line_no_strings line) (CHR ''}'')"
  then show "analyze_line st (i, line) = st"
    by (intro analyze_line_idle) (simp_all add: starts_capture_def net_open_def)
next
  assume "in_function (run_lines ls)
      \<and> count_list (line_no_strings line) (CHR ''{'') = count_list (line_no_strings line) (CHR ''}'')"
  then show "run_lines (ls @ [line])
            = (run_lines ls)\<lparr>func_content := func_content (run_lines ls) @ [line]\<rparr>"
    using balanced_line_absorbed by blast
next
  assume a: "list_all (\<lambda>l. count_list (line_no_strings l) (CHR ''{'')
                       \<le> count_list (line_no_strings l) (CHR ''}'')) (split_nl t)"
  have "list_all (\<lambda>l. \<not> starts_capture l) (split_nl t)"
    by (rule list.pred_mono_strong[OF a]) (simp add: starts_capture_def net_open_def)
  then show r: "run_lines (split_nl t) = init_state" by (rule run_lines_idle)
  show "analyze_functions t = []" by (simp add: analyze_functions_def r init_state_def)
qed

theorem one_line_function_not_captured_witness:
  "analyze_line init_state (0, ''int f(a) { if (a) { return 1; } return 0; }'') = init_state
   \<and> run_lines ([''void h() {''] @ [''  int f(a) { if (a) { return 1; } return 0; }''])
       = (run_lines [''void h() {''])\<lparr>func_content :=
            func_content (run_lines [''void h() {'']) @ [''  int f(a) { if (a) { return 1; } return 0; }'']\<rparr>
   \<and> run_lines (split_nl (''int f(a) { if (a) { return 1; } return 0; }'' @ [nl] @ ''void g() {}''))
       = init_state
   \<and> analyze_functions (''int f(a) { if (a) { return 1; } return 0; }'' @ [nl] @ ''void g() {}'') = []"
proof -
  let ?l = "''int f(a) { if (a) { return 1; } return 0; }''"
  let ?m = "''  int f(a) { if (a) { return 1; } return 0; }''"
  let ?t = "?l @ [nl] @ ''void g() {}''"
  have 1: "\<not> in_function init_state
      \<and> count_list (line_no_strings ?l) (CHR ''{'') \<le> count_list (line_no_strings ?l) (CHR ''}'')"
    by code_simp
  have 2: "list_all (\<lambda>l. count_list (line_no_strings l) (CHR ''{'')
                       \<le> count_list (line_no_strings l) (CHR ''}'')) (split_nl ?t)"
    by code_simp
  have 3: "in_function (run_lines [''void h() {''])
      \<and> count_list (line_no_strings ?m) (CHR ''{'') = count_list (line_no_strings ?m) (CHR ''}'')"
    by code_simp
  from one_line_function_not_captured[where st = init_state and line = ?l and i = 0 and t = ?t] 1 2
  have a: "analyze_line init_state (0, ?l) = init_state"
    and b: "run_lines (split_nl ?t) = init_state \<and> analyze_functions ?t = []"
    by blast+
  from one_line_function_not_captured[where line = ?m and ls = "[''void h() {'']"] 3
  have "run_lines ([''void h() {''] @ [?m])
       = (run_lines [''void h() {''])\<lparr>func_content := func_content (run_lines [''void h() {'']) @ [?m]\<rparr>"
    by blast
  with a b show ?thesis by blast
qed

text \<open>
  C7 as the specification states it fails: more opening than closing braces do not put the
  extractor into the capturing state. The one-line text \<^verbatim>\<open>if (x) {\<close> is never captured;
  and in the three-line text \<^verbatim>\<open>void f() {\<close>, \<^verbatim>\<open>}\<close>, \<^verbatim>\<open>if (x) {\<close> a function is
  captured and ends, and the excess brace comes after it, in the scanning state.
\<close>

theorem unbalanced_braces_counterexample:
  "count_list ''if (x) {'' (CHR ''{'') > count_list ''if (x) {'' (CHR ''}'')
   \<and> \<not> in_function (run_lines (split_nl ''if (x) {''))
   \<and> count_list (''void f() {'' @ [nl] @ ''}'' @ [nl] @ ''if (x) {'') (CHR ''{'')
       > count_list (''void f() {'' @ [nl] @ ''}'' @ [nl] @ ''if (x) {'') (CHR ''}'')
   \<and> \<not> in_function (run_lines (split_nl (''void f() {'' @ [nl] @ ''}'' @ [nl] @ ''if (x) {'')))"
  by code_simp

text \<open>
  C7, amended. The loop is a total function of the text: nothing in it can raise. When a
  line read in the scanning state starts a capture and the balance never returns to zero on
  that line or on a later one, the loop is still capturing at the end of the text: the
  unfinished region starts at that line, holds every line from there to the end, and is
  never emitted, so the result is the result for the lines before it. Conversely, whenever
  the loop ends inside a function, the unfinished region is the lines from its start line
  to the end of the text and adds no violation.
\<close>

theorem unfinished_region_dropped:
  "(split_nl t = pre @ l # post \<and> \<not> in_function (run_lines pre) \<and> starts_capture l
      \<and> never_zero 0 (l # post)
      \<longrightarrow> in_function (run_lines (split_nl t))
          \<and> func_start_line (run_lines (split_nl t)) = length pre
          \<and> func_content (run_lines (split_nl t)) = l # post
          \<and> analyze_functions t = violations (run_lines pre))
   \<and> (in_function (run_lines (split_nl t)) \<longrightarrow>
       func_start_line (run_lines (split_nl t)) < length (split_nl t)
       \<and> func_content (run_lines (split_nl t))
           = drop (func_start_line (run_lines (split_nl t))) (split_nl t)
       \<and> \<not> in_function (run_lines (take (func_start_line (run_lines (split_nl t))) (split_nl t)))
       \<and> analyze_functions t
           = violations (run_lines (take (func_start_line (run_lines (split_nl t))) (split_nl t))))"
proof (intro conjI impI)
  assume a: "split_nl t = pre @ l # post \<and> \<not> in_function (run_lines pre) \<and> starts_capture l
      \<and> never_zero 0 (l # post)"
  then have s: "split_nl t = pre @ l # post" by blast
  from a stays_capturing[of pre l post]
  show "in_function (run_lines (split_nl t))"
    and "func_start_line (run_lines (split_nl t)) = length pre"
    and "func_content (run_lines (split_nl t)) = l # post"
    and "analyze_functions t = violations (run_lines pre)"
    unfolding analyze_functions_def s by blast+
next
  assume "in_function (run_lines (split_nl t))"
  from capture_invariant[OF this]
  show "func_start_line (run_lines (split_nl t)) < length (split_nl t)"
    and "func_content (run_lines (split_nl t))
           = drop (func_start_line (run_lines (split_nl t))) (split_nl t)"
    and "\<not> in_function (run_lines (take (func_start_line (run_lines (split_nl t))) (split_nl t)))"
    and "analyze_functions t
           = violations (run_lines (take (func_start_line (run_lines (split_nl t))) (split_nl t)))"
    by (simp_all add: analyze_functions_def)
qed

theorem unfinished_region_dropped_witness:
  "in_function (run_lines (split_nl (''void f() {'' @ [nl] @ ''}'' @ [nl] @ ''void g() {'' @ [nl] @ ''  if (x) {'' @ [nl] @ ''}'')))
   \<and> func_start_line (run_lines (split_nl (''void f() {'' @ [nl] @ ''}'' @ [nl] @ ''void g() {'' @ [nl] @ ''  if (x) {'' @ [nl] @ ''}''))) = 2
   \<and> func_content (run_lines (split_nl (''void f() {'' @ [nl] @ ''}'' @ [nl] @ ''void g() {'' @ [nl] @ ''  if (x) {'' @ [nl] @ ''}'')))
       = [''void g() {'', ''  if (x) {'', ''}'']
   \<and> analyze_functions (''void f() {'' @ [nl] @ ''}'' @ [nl] @ ''void g() {'' @ [nl] @ ''  if (x) {'' @ [nl] @ ''}'')
       = violations (run_lines [''void f() {'', ''}''])"
proof -
  let ?t = "''void f() {'' @ [nl] @ ''}'' @ [nl] @ ''void g() {'' @ [nl] @ ''  if (x) {'' @ [nl] @ ''}''"
  let ?pre = "[''void f() {'', ''}'']"
  let ?post = "[''  if (x) {'', ''}'']"
  have 1: "split_nl ?t = ?pre @ ''void g() {'' # ?post" by code_simp
  have 2: "\<not> in_function (run_lines ?pre)" by code_simp
  have 3: "starts_capture ''void g() {''" by code_simp
  have 4: "never_zero 0 (''void g() {'' # ?post)" by code_simp
  have 5: "length ?pre = 2" by simp
  from unfinished_region_dropped[of ?t ?pre "''void g() {''" ?post] 1 2 3 4
  have "in_function (run_lines (split_nl ?t))
          \<and> func_start_line (run_lines (split_nl ?t)) = length ?pre
          \<and> func_content (run_lines (split_nl ?t)) = ''void g() {'' # ?post
          \<and> analyze_functions ?t = violations (run_lines ?pre)"
    by blast
  then show ?thesis unfolding 5 by blast
qed


subsection \<open>C8: literal masking\<close>















subsection \<open>C9: control-flow constructs are not functions\<close>
































subsection \<open>C4: the order of the violations\<close>

lemma function_end_at_append:
  "k < length ls \<Longrightarrow> function_end_at (ls @ [l]) k = function_end_at ls k"
  by (simp add: function_end_at_def Let_def nth_append)

lemma extracted_functions_snoc:
  "extracted_functions (ls @ [l]) = extracted_functions ls @ function_end_at (ls @ [l]) (length ls)"
proof -
  have "\<forall>k \<in> set [0..<length ls]. function_end_at (ls @ [l]) k = function_end_at ls k"
    by (simp add: function_end_at_append)
  then have "map (function_end_at (ls @ [l])) [0..<length ls] = map (function_end_at ls) [0..<length ls]"
    by (simp only: map_eq_conv)
  then have "concat (map (function_end_at (ls @ [l])) [0..<length ls])
      = concat (map (function_end_at ls) [0..<length ls])"
    by (rule arg_cong)
  then show ?thesis by (simp add: extracted_functions_def)
qed

lemma violations_snoc:
  "violations (run_lines (ls @ [l]))
     = violations (run_lines ls) @ concat (map region_violations (function_end_at (ls @ [l]) (length ls)))"
proof -
  let ?st = "run_lines ls"
  have e: "function_end_at (ls @ [l]) (length ls) =
      (if in_function ?st \<and> brace_balance ?st + delta l = 0
       then [(func_name ?st, func_start_line ?st, func_content ?st @ [l])] else [])"
    by (simp add: function_end_at_def Let_def)
  show ?thesis
  proof (cases "in_function ?st")
    case True
    show ?thesis
    proof (cases "brace_balance ?st + delta l = 0")
      case z: True
      show ?thesis unfolding run_lines_snoc analyze_line_end[OF True z] e
        using True z by (simp add: region_violations_def)
    next
      case False
      show ?thesis unfolding run_lines_snoc analyze_line_continue[OF True False] e
        using False by simp
    qed
  next
    case False
    show ?thesis
    proof (cases "starts_capture l")
      case True
      show ?thesis unfolding run_lines_snoc analyze_line_start[OF False True] e
        using False by simp
    next
      case ns: False
      show ?thesis unfolding run_lines_snoc analyze_line_idle[OF False ns] e
        using False by simp
    qed
  qed
qed

lemma violations_extracted:
  "violations (run_lines ls) = concat (map region_violations (extracted_functions ls))"
proof (induction ls rule: rev_induct)
  case Nil
  then show ?case by (simp add: run_lines_Nil init_state_def extracted_functions_def)
next
  case (snoc l ls)
  then show ?case by (simp add: violations_snoc extracted_functions_snoc)
qed

lemma extracted_order:
  "sorted_wrt (<) (map (\<lambda>r. fst (snd r)) (extracted_functions ls))
   \<and> (\<forall>r \<in> set (extracted_functions ls). fst (snd r) < length ls)
   \<and> (in_function (run_lines ls) \<longrightarrow>
        (\<forall>r \<in> set (extracted_functions ls). fst (snd r) < func_start_line (run_lines ls)))"
proof (induction ls rule: rev_induct)
  case Nil
  then show ?case by (simp add: extracted_functions_def)
next
  case (snoc l ls)
  let ?st = "run_lines ls"
  have e: "function_end_at (ls @ [l]) (length ls) =
      (if in_function ?st \<and> brace_balance ?st + delta l = 0
       then [(func_name ?st, func_start_line ?st, func_content ?st @ [l])] else [])"
    by (simp add: function_end_at_def Let_def)
  show ?case
  proof (cases "in_function ?st")
    case True
    then have lt: "func_start_line ?st < length ls" using capture_invariant by blast
    show ?thesis
    proof (cases "brace_balance ?st + delta l = 0")
      case z: True
      have "\<not> in_function (run_lines (ls @ [l]))"
        unfolding run_lines_snoc analyze_line_end[OF True z] by simp
      then show ?thesis using snoc.IH True z lt
        by (auto simp: extracted_functions_snoc e sorted_wrt_append)
    next
      case False
      have "func_start_line (run_lines (ls @ [l])) = func_start_line ?st"
        unfolding run_lines_snoc analyze_line_continue[OF True False] by simp
      then show ?thesis using snoc.IH True False
        by (auto simp: extracted_functions_snoc e)
    qed
  next
    case False
    show ?thesis
    proof (cases "starts_capture l")
      case True
      have "func_start_line (run_lines (ls @ [l])) = length ls"
        unfolding run_lines_snoc analyze_line_start[OF False True] by simp
      then show ?thesis using snoc.IH False
        by (auto simp: extracted_functions_snoc e)
    next
      case ns: False
      have "\<not> in_function (run_lines (ls @ [l]))"
        unfolding run_lines_snoc analyze_line_idle[OF False ns] using False by simp
      then show ?thesis using snoc.IH False
        by (auto simp: extracted_functions_snoc e)
    qed
  qed
qed


text \<open>
  C4. The violations of a file are the file-LOC line, if there is one, followed by the
  violations of the extracted functions, function by function in the order of extraction;
  the violations of one function are its LOC line, if there is one, followed by its
  complexity line, if there is one. The order of extraction is the order of the functions
  in the text: the start lines of the extracted functions increase.
\<close>

theorem violation_order:
  "file_violations content =
     (if count_file_loc (remove_comments content) > 500
      then [file_loc_message (count_file_loc (remove_comments content))] else [])
     @ concat (map region_violations (extracted_functions (split_nl (remove_comments content))))
   \<and> region_violations (name, start, body) =
     (if count_loc body > 50 then [loc_message name start (count_loc body)] else [])
     @ (if calculate_complexity (join_nl body) > 10
        then [complexity_message name start (calculate_complexity (join_nl body))] else [])
   \<and> sorted_wrt (<) (map (\<lambda>r. fst (snd r)) (extracted_functions ls))"
proof -
  have "file_violations content =
     (if count_file_loc (remove_comments content) > 500
      then [file_loc_message (count_file_loc (remove_comments content))] else [])
     @ concat (map region_violations (extracted_functions (split_nl (remove_comments content))))"
    by (simp add: file_violations_def Let_def analyze_functions_def violations_extracted
          MAX_FILE_LOC_def)
  moreover have "region_violations (name, start, body) =
     (if count_loc body > 50 then [loc_message name start (count_loc body)] else [])
     @ (if calculate_complexity (join_nl body) > 10
        then [complexity_message name start (calculate_complexity (join_nl body))] else [])"
    by (simp add: region_violations_def function_violations_def Let_def MAX_FUNC_LOC_def
          MAX_COMPLEXITY_def)
  moreover have "sorted_wrt (<) (map (\<lambda>r. fst (snd r)) (extracted_functions ls))"
    using extracted_order[of ls] by blast
  ultimately show ?thesis by blast
qed

theorem violation_order_witness:
  "file_violations (''void f() {'' @ [nl] @ ''  return a??????????b;'' @ [nl] @ ''}'' @ [nl]
                    @ ''int g() {'' @ [nl] @ ''  return c??????????d;'' @ [nl] @ ''}'')
     = [complexity_message ''f'' 0 11, complexity_message ''g'' 3 11]
   \<and> extracted_functions (split_nl (''void f() {'' @ [nl] @ ''  return a??????????b;'' @ [nl] @ ''}'' @ [nl]
                    @ ''int g() {'' @ [nl] @ ''  return c??????????d;'' @ [nl] @ ''}''))
     = [(''f'', 0, [''void f() {'', ''  return a??????????b;'', ''}'']),
        (''g'', 3, [''int g() {'', ''  return c??????????d;'', ''}''])]"
proof -
  let ?c = "''void f() {'' @ [nl] @ ''  return a??????????b;'' @ [nl] @ ''}'' @ [nl]
                    @ ''int g() {'' @ [nl] @ ''  return c??????????d;'' @ [nl] @ ''}''"
  let ?rs = "[(''f'', 0, [''void f() {'', ''  return a??????????b;'', ''}'']),
        (''g'', 3, [''int g() {'', ''  return c??????????d;'', ''}''])]"
  have a: "remove_comments ?c = ?c" by code_simp
  have b: "\<not> count_file_loc ?c > 500" by code_simp
  have c: "extracted_functions (split_nl ?c) = ?rs" by code_simp
  have d: "concat (map region_violations ?rs)
             = [complexity_message ''f'' 0 11, complexity_message ''g'' 3 11]"
    by code_simp
  from violation_order[of ?c]
  have "file_violations ?c =
     (if count_file_loc (remove_comments ?c) > 500
      then [file_loc_message (count_file_loc (remove_comments ?c))] else [])
     @ concat (map region_violations (extracted_functions (split_nl (remove_comments ?c))))"
    by blast
  then have "file_violations ?c = [complexity_message ''f'' 0 11, complexity_message ''g'' 3 11]"
    unfolding a c d using b by simp
  with c show ?thesis by blast
qed


subsection \<open>C3: the file-LOC threshold\<close>

lemma remove_comments_plain:
  "slash \<notin> set t \<Longrightarrow> squote \<notin> set t \<Longrightarrow> dquote \<notin> set t \<Longrightarrow> remove_comments t = t"
  by (induction t) auto

lemma split_nl_x_lines:
  "split_nl (concat (replicate n (''x'' @ [nl]))) = replicate n ''x'' @ [[]]"
  by (induction n) auto

lemma count_loc_x_lines: "count_loc (replicate n ''x'' @ [[]]) = n"
  by (induction n) (auto simp: strip_def is_space_def)

lemma x_lines_idle: "list_all (\<lambda>l. \<not> starts_capture l) (replicate n ''x'' @ [[]])"
proof -
  have "\<not> starts_capture ''x''" "\<not> starts_capture []"
    by (simp_all add: starts_capture_def net_open_def line_no_strings_def)
  then show ?thesis by (induction n) auto
qed

lemma x_text:
  "remove_comments (concat (replicate n (''x'' @ [nl]))) = concat (replicate n (''x'' @ [nl]))
   \<and> count_file_loc (concat (replicate n (''x'' @ [nl]))) = n
   \<and> analyze_functions (concat (replicate n (''x'' @ [nl]))) = []"
proof -
  have "set (concat (replicate n (''x'' @ [nl]))) \<subseteq> {CHR ''x'', nl}" by (induction n) auto
  then have "remove_comments (concat (replicate n (''x'' @ [nl]))) = concat (replicate n (''x'' @ [nl]))"
    by (intro remove_comments_plain) auto
  moreover have "count_file_loc (concat (replicate n (''x'' @ [nl]))) = n"
    by (simp only: count_file_loc_def split_nl_x_lines count_loc_x_lines)
  moreover have "analyze_functions (concat (replicate n (''x'' @ [nl]))) = []"
    unfolding analyze_functions_def split_nl_x_lines run_lines_idle[OF x_lines_idle]
    by (simp add: init_state_def)
  ultimately show ?thesis by blast
qed

text \<open>
  C3. The file threshold is exclusive. A file with exactly 500 meaningful lines after
  sanitizing gets no file-LOC line: its violations are those of its functions, none of
  which is a file-LOC line. A file with 501 gets exactly one, ahead of the function
  violations.
\<close>

theorem file_loc_threshold:
  "(count_file_loc (remove_comments content) = 500 \<longrightarrow>
      file_violations content = analyze_functions (remove_comments content)
      \<and> filter (starts_with ''  - File LOC '') (file_violations content) = [])
   \<and> (count_file_loc (remove_comments content) = 501 \<longrightarrow>
      file_violations content
        = ''  - File LOC 501 > 500'' # analyze_functions (remove_comments content)
      \<and> filter (starts_with ''  - File LOC '') (file_violations content)
        = [''  - File LOC 501 > 500''])"
proof -
  let ?a = "analyze_functions (remove_comments content)"
  have n: "filter (starts_with ''  - File LOC '') ?a = []"
    unfolding analyze_functions_def by (rule no_file_lines[OF run_lines_violations_prefix])
  have m: "file_loc_message 501 = ''  - File LOC 501 > 500''" by code_simp
  have s: "starts_with ''  - File LOC '' ''  - File LOC 501 > 500''" by code_simp
  show ?thesis
    using n s by (simp add: file_violations_def Let_def MAX_FILE_LOC_def m del: starts_with_def)
qed


theorem file_loc_threshold_witness:
  "file_violations (concat (replicate 500 (''x'' @ [nl]))) = []
   \<and> file_violations (concat (replicate 501 (''x'' @ [nl]))) = [''  - File LOC 501 > 500'']
   \<and> filter (starts_with ''  - File LOC '') (file_violations (concat (replicate 501 (''x'' @ [nl]))))
       = [''  - File LOC 501 > 500'']"
proof -
  note a = x_text[of 500] and b = x_text[of 501]
  from file_loc_threshold[of "concat (replicate 500 (''x'' @ [nl]))"] a
  have 1: "file_violations (concat (replicate 500 (''x'' @ [nl]))) = []" by metis
  from file_loc_threshold[of "concat (replicate 501 (''x'' @ [nl]))"] b
  have 2: "file_violations (concat (replicate 501 (''x'' @ [nl]))) = [''  - File LOC 501 > 500'']"
    and 3: "filter (starts_with ''  - File LOC '') (file_violations (concat (replicate 501 (''x'' @ [nl]))))
       = [''  - File LOC 501 > 500'']" by metis+
  from 1 2 3 show ?thesis by blast
qed

end
